theory Spec2Isabelle
  imports Complex_Main "HOL-Library.AList"
begin

section \<open>Python values\<close>

text \<open>
  The pipeline handles decoded JSON throughout (\<^verbatim>\<open>resp.json()\<close>, \<^verbatim>\<open>json.load\<close>):
  \<^verbatim>\<open>None\<close>, booleans, numbers, strings, lists and dicts. A dict is the list of its
  items in insertion order (keys pairwise distinct); a string is a list of characters
  with code points below 256. Numbers are only ever copied or tested for truth.
\<close>

datatype json =
    JNull
  | JBool bool
  | JInt int
  | JFloat rat
  | JStr string
  | JList "json list"
  | JObj "(string \<times> json) list"

text \<open>The exceptions the modelled code can raise.\<close>

datatype py_error = AttributeError | TypeError | JSONDecodeError

text \<open>Sequencing of computations that may raise.\<close>

definition ebind :: "py_error + 'a \<Rightarrow> ('a \<Rightarrow> py_error + 'b) \<Rightarrow> py_error + 'b" where
  "ebind m f = (case m of Inl e \<Rightarrow> Inl e | Inr x \<Rightarrow> f x)"

text \<open>\<^verbatim>\<open>x.get(k, default)\<close>: only a dict has \<^verbatim>\<open>get\<close>.\<close>

fun py_get_default :: "json \<Rightarrow> string \<Rightarrow> json \<Rightarrow> py_error + json" where
  "py_get_default (JObj kvs) k dflt = Inr (case map_of kvs k of None \<Rightarrow> dflt | Some v \<Rightarrow> v)"
| "py_get_default _ k dflt = Inl AttributeError"

text \<open>\<^verbatim>\<open>x.get(k)\<close>, whose default is \<^verbatim>\<open>None\<close>.\<close>

definition py_get :: "json \<Rightarrow> string \<Rightarrow> py_error + json" where
  "py_get x k = py_get_default x k JNull"

text \<open>Truth value of an object, as \<^verbatim>\<open>if x\<close>, \<^verbatim>\<open>not x\<close> and \<^verbatim>\<open>x or y\<close> test it.\<close>

fun truthy :: "json \<Rightarrow> bool" where
  "truthy JNull = False"
| "truthy (JBool b) = b"
| "truthy (JInt i) = (i \<noteq> 0)"
| "truthy (JFloat r) = (r \<noteq> 0)"
| "truthy (JStr s) = (s \<noteq> [])"
| "truthy (JList xs) = (xs \<noteq> [])"
| "truthy (JObj kvs) = (kvs \<noteq> [])"

text \<open>\<^verbatim>\<open>x or y\<close>.\<close>

definition py_or :: "json \<Rightarrow> json \<Rightarrow> json" where
  "py_or x y = (if truthy x then x else y)"

fun is_dict :: "json \<Rightarrow> bool" where
  "is_dict (JObj kvs) = True"
| "is_dict _ = False"

fun is_list :: "json \<Rightarrow> bool" where
  "is_list (JList xs) = True"
| "is_list _ = False"

text \<open>
  The items a \<^verbatim>\<open>for\<close> loop draws from a value: the elements of a list, the keys of a
  dict, the one-character strings of a string; anything else is not iterable.
\<close>

fun py_iter :: "json \<Rightarrow> py_error + json list" where
  "py_iter (JList xs) = Inr xs"
| "py_iter (JObj kvs) = Inr (map (\<lambda>kv. JStr (fst kv)) kvs)"
| "py_iter (JStr s) = Inr (map (\<lambda>c. JStr [c]) s)"
| "py_iter _ = Inl TypeError"

text \<open>\<^verbatim>\<open>xs[:n]\<close> for a Python integer \<open>n\<close>: a negative \<open>n\<close> counts from the end.\<close>

definition py_prefix :: "'a list \<Rightarrow> int \<Rightarrow> 'a list" where
  "py_prefix xs n = (if n < 0 then take (nat (int (length xs) + n)) xs else take (nat n) xs)"

text \<open>A measure on values: a value found in a dict weighs less than the dict, and the items
  drawn by \<open>py_iter\<close> together weigh no more than the value.\<close>

primrec jweight :: "json \<Rightarrow> nat" where
  "jweight JNull = 1"
| "jweight (JBool b) = 1"
| "jweight (JInt i) = 1"
| "jweight (JFloat r) = 1"
| "jweight (JStr s) = length s"
| "jweight (JList xs) = Suc (sum_list (map jweight xs))"
| "jweight (JObj kvs) =
     Suc (sum_list (map (\<lambda>p. length (fst p) + snd p) (map (map_prod id jweight) kvs)))"

lemma ebind_cong [fundef_cong]:
  "m = m' \<Longrightarrow> (\<And>x. m' = Inr x \<Longrightarrow> f x = f' x) \<Longrightarrow> ebind m f = ebind m' f'"
  by (auto simp: ebind_def split: sum.splits)

lemma jweight_map_of: "map_of kvs k = Some v \<Longrightarrow> jweight v < jweight (JObj kvs)"
  by (induction kvs) (auto split: if_splits)

lemma jweight_get_default:
  "py_get_default x k d = Inr v \<Longrightarrow> jweight v \<le> max (jweight x) (jweight d)"
  by (cases x) (auto split: option.splits dest: jweight_map_of)

lemma jweight_get: "py_get x k = Inr v \<Longrightarrow> jweight v \<le> jweight x"
  by (cases x) (auto simp: py_get_def split: option.splits dest: jweight_map_of)

lemma jweight_keys: "sum_list (map jweight (map (\<lambda>kv. JStr (fst kv)) kvs)) < jweight (JObj kvs)"
  by (induction kvs) auto

lemma jweight_chars: "sum_list (map jweight (map (\<lambda>c. JStr [c]) s)) = jweight (JStr s)"
  by (induction s) auto

lemma jweight_iter: "py_iter v = Inr items \<Longrightarrow> sum_list (map jweight items) \<le> jweight v"
  using jweight_keys [THEN less_imp_le] jweight_chars [THEN eq_imp_le] by (cases v) auto

lemma jweight_dict_pos: "is_dict x \<Longrightarrow> 0 < jweight x"
  by (cases x) auto

lemma jweight_get_pos: "py_get x k = Inr v \<Longrightarrow> 0 < jweight x"
  by (cases x) (auto simp: py_get_def)

section \<open>Comment tree flattening (extract_reddit.py)\<close>

text \<open>The record \<^verbatim>\<open>_walk\<close> appends for a comment node with data \<open>d\<close>.\<close>

definition comment_record :: "json \<Rightarrow> json \<Rightarrow> py_error + json" where
  "comment_record post_id d =
     ebind (py_get d ''id'') (\<lambda>comment_id.
     ebind (py_get d ''parent_id'') (\<lambda>parent_id.
     ebind (py_get d ''author'') (\<lambda>author.
     ebind (py_get d ''body'') (\<lambda>body.
     ebind (py_get d ''score'') (\<lambda>score.
     ebind (py_get d ''created_utc'') (\<lambda>created_utc.
       Inr (JObj [(''post_id'', post_id), (''comment_id'', comment_id),
                  (''parent_id'', parent_id), (''author'', author), (''body'', body),
                  (''score'', score), (''created_utc'', created_utc)])))))))"

text \<open>\<^verbatim>\<open>replies.get("data", {}).get("children", [])\<close>\<close>

definition replies_children :: "json \<Rightarrow> py_error + json" where
  "replies_children replies =
     ebind (py_get_default replies ''data'' (JObj []))
       (\<lambda>rd. py_get_default rd ''children'' (JList []))"

lemma jweight_children:
  assumes "is_dict replies" "replies_children replies = Inr c" "py_iter c = Inr items"
  shows "sum_list (map jweight items) < jweight replies"
proof -
  obtain rd where rd: "py_get_default replies ''data'' (JObj []) = Inr rd"
    and c: "py_get_default rd ''children'' (JList []) = Inr c"
    using assms(2) by (auto simp: replies_children_def ebind_def split: sum.splits)
  obtain kvs where kvs: "replies = JObj kvs" using assms(1) by (cases replies) auto
  obtain kvs' where kvs': "rd = JObj kvs'" using c by (cases rd) auto
  have le: "jweight rd \<le> jweight replies"
    using rd kvs kvs' by (auto split: option.splits dest: jweight_map_of)
  show ?thesis
  proof (cases "map_of kvs' ''children''")
    case None
    then have "items = []" using c kvs' assms(3) by auto
    then show ?thesis using kvs by simp
  next
    case (Some v)
    then have "jweight c < jweight rd" using c kvs' jweight_map_of [OF Some] by auto
    then show ?thesis using le jweight_iter [OF assms(3)] by linarith
  qed
qed

lemma jweight_replies:
  assumes "py_get_default node ''data'' (JObj []) = Inr d" "py_get d ''replies'' = Inr replies"
    "is_dict replies"
  shows "jweight replies \<le> jweight node"
proof -
  obtain kvs where kvs: "node = JObj kvs" using assms(1) by (cases node) auto
  obtain kvs' where kvs': "d = JObj kvs'" using assms(2) by (cases d) (auto simp: py_get_def)
  have "jweight replies < jweight d"
    using assms(2,3) kvs' by (auto simp: py_get_def split: option.splits dest: jweight_map_of)
  moreover have "jweight d \<le> jweight node \<or> d = JObj []"
    using assms(1) kvs by (auto split: option.splits dest: jweight_map_of)
  ultimately show ?thesis using kvs by auto
qed

text \<open>
  \<^verbatim>\<open>_walk\<close>, with the list \<^verbatim>\<open>flattened\<close> it appends to passed along and returned.
  A node that is not the comment kind is passed over by \<^verbatim>\<open>continue\<close>; a comment node
  is recorded and its replies, when they are a dict, are walked before the next sibling.
\<close>

function walk :: "json \<Rightarrow> json list \<Rightarrow> json list \<Rightarrow> py_error + json list" where
  "walk post_id [] flattened = Inr flattened"
| "walk post_id (node # node_list) flattened =
     ebind (py_get node ''kind'') (\<lambda>kind.
       if kind \<noteq> JStr ''t1'' then walk post_id node_list flattened
       else
         ebind (py_get_default node ''data'' (JObj [])) (\<lambda>d.
         ebind (comment_record post_id d) (\<lambda>r.
         ebind (py_get d ''replies'') (\<lambda>replies.
           if is_dict replies then
             ebind (replies_children replies) (\<lambda>replies_data.
             ebind (py_iter replies_data) (\<lambda>items.
             ebind (walk post_id items (flattened @ [r])) (\<lambda>flattened'.
               walk post_id node_list flattened')))
           else walk post_id node_list (flattened @ [r])))))"
  by pat_completeness auto
termination
proof (relation "measure (\<lambda>(p, nodes, acc). sum_list (map jweight nodes))", goal_cases)
  case 1 show ?case by simp
next
  case 2 then show ?case by (simp add: jweight_get_pos)
next
  case (3 post_id node node_list flattened kind d r replies replies_data items)
  then show ?case
    using jweight_replies [of node d replies] jweight_children [of replies replies_data items]
    by simp
next
  case 4 then show ?case by (simp add: jweight_get_pos)
next
  case 5 then show ?case by (simp add: jweight_get_pos)
qed

definition flatten_comments_tree :: "json \<Rightarrow> json \<Rightarrow> py_error + json list" where
  "flatten_comments_tree comments_data post_id =
     ebind (py_iter comments_data) (\<lambda>node_list. walk post_id node_list [])"

subsection \<open>Vocabulary for the properties of the flattener\<close>

text \<open>A field of a dict, read without raising (\<^verbatim>\<open>None\<close> when it is missing).\<close>

definition field :: "json \<Rightarrow> string \<Rightarrow> json" where
  "field x k = (case py_get x k of Inl e \<Rightarrow> JNull | Inr v \<Rightarrow> v)"

text \<open>A node that is a dict whose kind tag is not the comment kind.\<close>

definition non_comment :: "json \<Rightarrow> bool" where
  "non_comment node = (is_dict node \<and> field node ''kind'' \<noteq> JStr ''t1'')"

text \<open>The data of a comment node, and the nodes nested below it as \<^verbatim>\<open>_walk\<close> reaches them.\<close>

definition comment_data :: "json \<Rightarrow> json option" where
  "comment_data node =
     (if is_dict node \<and> field node ''kind'' = JStr ''t1''
      then (case py_get_default node ''data'' (JObj []) of Inl e \<Rightarrow> None | Inr d \<Rightarrow> Some d)
      else None)"

definition reply_nodes :: "json \<Rightarrow> json list" where
  "reply_nodes d =
     (if is_dict (field d ''replies'')
      then (case ebind (replies_children (field d ''replies'')) py_iter of
              Inl e \<Rightarrow> [] | Inr items \<Rightarrow> items)
      else [])"

text \<open>
  Well-formedness of a reply tree, along the path \<^verbatim>\<open>_walk\<close> takes through it: the
  \<^verbatim>\<open>parent_id\<close> of every comment node of the list satisfies \<open>parent_ok\<close>, and the
  \<^verbatim>\<open>parent_id\<close> of every comment node nested directly below a comment names that
  comment's \<^verbatim>\<open>id\<close>. What "names" means is the relation \<open>names_comment\<close>.
  Nodes of any other kind, and whatever is below them, are unconstrained.
\<close>

lemma jweight_reply_nodes:
  assumes "comment_data node = Some d"
  shows "sum_list (map jweight (reply_nodes d)) < jweight node"
proof (cases "is_dict (field d ''replies'')")
  case False
  then show ?thesis using assms
    by (auto simp: reply_nodes_def comment_data_def jweight_dict_pos split: if_splits)
next
  case True
  have d: "py_get_default node ''data'' (JObj []) = Inr d"
    using assms by (auto simp: comment_data_def split: if_splits sum.splits)
  have r: "py_get d ''replies'' = Inr (field d ''replies'')"
    using True by (cases d) (auto simp: field_def py_get_def)
  show ?thesis
  proof (cases "ebind (replies_children (field d ''replies'')) py_iter")
    case (Inl e)
    then show ?thesis using assms True
      by (auto simp: reply_nodes_def comment_data_def jweight_dict_pos split: if_splits)
  next
    case (Inr items)
    then obtain c where "replies_children (field d ''replies'') = Inr c" "py_iter c = Inr items"
      by (auto simp: ebind_def split: sum.splits)
    from jweight_children [OF True this] jweight_replies [OF d r True] Inr True
    show ?thesis by (simp add: reply_nodes_def)
  qed
qed

function wf_nodes :: "(json \<Rightarrow> json \<Rightarrow> bool) \<Rightarrow> (json \<Rightarrow> bool) \<Rightarrow> json list \<Rightarrow> bool" where
  "wf_nodes names_comment parent_ok [] = True"
| "wf_nodes names_comment parent_ok (node # node_list) =
     ((case comment_data node of
         None \<Rightarrow> True
       | Some d \<Rightarrow>
           parent_ok (field d ''parent_id'') \<and>
           wf_nodes names_comment (\<lambda>p. names_comment p (field d ''id'')) (reply_nodes d)) \<and>
      wf_nodes names_comment parent_ok node_list)"
  by pat_completeness auto
termination
proof (relation "measures [\<lambda>(nc, ok, nodes). sum_list (map jweight nodes), \<lambda>(nc, ok, nodes). length nodes]", goal_cases)
  case 1 show ?case by simp
next
  case (2 nc ok node node_list d)
  then show ?case using jweight_reply_nodes [of node d] by simp
next
  case (3 nc ok node node_list)
  show ?case by (cases "jweight node = 0") simp_all
qed

text \<open>
  Parent-before-child ordering of a list of comment records: the \<^verbatim>\<open>parent_id\<close> of each
  record names the post, or names the \<^verbatim>\<open>comment_id\<close> of a record strictly earlier in
  the list.
\<close>

definition parent_before_child :: "(json \<Rightarrow> bool) \<Rightarrow> (json \<Rightarrow> json \<Rightarrow> bool) \<Rightarrow> json list \<Rightarrow> bool" where
  "parent_before_child names_post names_comment out =
     (\<forall>i<length out. names_post (field (out ! i) ''parent_id'') \<or>
        (\<exists>j<i. names_comment (field (out ! i) ''parent_id'') (field (out ! j) ''comment_id'')))"

text \<open>
  The listing API's convention for identifiers with a type prefix: \<^verbatim>\<open>parent_id\<close> is
  \<^verbatim>\<open>t1_\<close> followed by the identifier of a comment, \<^verbatim>\<open>t3_\<close> followed by that of a post.
\<close>

definition fullname :: "string \<Rightarrow> json \<Rightarrow> json \<Rightarrow> bool" where
  "fullname prefix p x = (case x of JStr s \<Rightarrow> p = JStr (prefix @ s) | _ \<Rightarrow> False)"

text \<open>A small reply tree: comment \<open>a\<close> on post \<open>p\<close>, with a reply \<open>b\<close> and a "more" placeholder
  below it; and a placeholder whose payload is not even a dict.\<close>

definition sample_reply :: json where
  "sample_reply = JObj [(''kind'', JStr ''t1''),
     (''data'', JObj [(''id'', JStr ''b''), (''parent_id'', JStr ''t1_a''),
        (''body'', JStr ''me too''), (''replies'', JStr [])])]"

definition sample_more :: json where
  "sample_more = JObj [(''kind'', JStr ''more''), (''data'', JInt 3)]"

definition sample_comment :: json where
  "sample_comment = JObj [(''kind'', JStr ''t1''),
     (''data'', JObj [(''id'', JStr ''a''), (''parent_id'', JStr ''t3_p''),
        (''body'', JStr ''first''),
        (''replies'', JObj [(''data'', JObj [(''children'', JList [sample_reply, sample_more])])])])]"

subsection \<open>Properties of the flattener\<close>

declare walk.simps(2) [simp del]

lemma walk_non_comment:
  "non_comment node \<Longrightarrow> walk post_id (node # node_list) flattened = walk post_id node_list flattened"
proof -
  assume a: "non_comment node"
  then obtain kvs where kvs: "node = JObj kvs" by (cases node) (auto simp: non_comment_def)
  obtain kind where k: "py_get node ''kind'' = Inr kind" "kind \<noteq> JStr ''t1''"
    using a kvs by (auto simp: non_comment_def field_def py_get_def)
  show ?thesis
    by (subst walk.simps(2)) (simp add: k ebind_def)
qed

lemma walk_all_non_comment:
  "list_all non_comment nodes \<Longrightarrow> walk post_id nodes flattened = Inr flattened"
  by (induction nodes) (simp_all add: walk_non_comment)

lemma comment_record_fields:
  assumes "comment_record post_id d = Inr r"
  shows "field r ''parent_id'' = field d ''parent_id''" "field r ''comment_id'' = field d ''id''"
    "field r ''post_id'' = post_id"
proof -
  obtain kvs where kvs: "d = JObj kvs"
    using assms by (cases d) (auto simp: comment_record_def ebind_def py_get_def)
  have r: "r = JObj [(''post_id'', post_id), (''comment_id'', field d ''id''),
                  (''parent_id'', field d ''parent_id''), (''author'', field d ''author''),
                  (''body'', field d ''body''),
                  (''score'', field d ''score''), (''created_utc'', field d ''created_utc'')]"
    using assms unfolding kvs by (simp add: comment_record_def ebind_def field_def py_get_def)
  show "field r ''parent_id'' = field d ''parent_id''" "field r ''comment_id'' = field d ''id''"
    "field r ''post_id'' = post_id"
    unfolding r by (simp_all add: field_def py_get_def)
qed

lemma ordered_after_append:
  assumes "parent_before_child ok nc xs" "parent_before_child ok nc ys"
  shows "parent_before_child ok nc (xs @ ys)"
  unfolding parent_before_child_def
proof (intro allI impI)
  fix i assume i: "i < length (xs @ ys)"
  let ?zs = "xs @ ys"
  show "ok (field (?zs ! i) ''parent_id'') \<or>
        (\<exists>j<i. nc (field (?zs ! i) ''parent_id'') (field (?zs ! j) ''comment_id''))"
  proof (cases "i < length xs")
    case True
    then have zi: "?zs ! i = xs ! i" by (simp add: nth_append)
    from assms(1) True have "ok (field (xs ! i) ''parent_id'') \<or>
        (\<exists>j<i. nc (field (xs ! i) ''parent_id'') (field (xs ! j) ''comment_id''))"
      unfolding parent_before_child_def by blast
    then show ?thesis
    proof
      assume "ok (field (xs ! i) ''parent_id'')"
      then show ?thesis unfolding zi by (rule disjI1)
    next
      assume "\<exists>j<i. nc (field (xs ! i) ''parent_id'') (field (xs ! j) ''comment_id'')"
      then obtain j where j: "j < i"
        and n: "nc (field (xs ! i) ''parent_id'') (field (xs ! j) ''comment_id'')" by blast
      have zj: "?zs ! j = xs ! j" using j True by (simp add: nth_append)
      have "j < i \<and> nc (field (?zs ! i) ''parent_id'') (field (?zs ! j) ''comment_id'')"
        unfolding zi zj using j n by (rule conjI)
      then show ?thesis by (intro disjI2 exI)
    qed
  next
    case False
    define k where "k = i - length xs"
    have k: "k < length ys" using i False by (simp add: k_def)
    have zi: "?zs ! i = ys ! k" using False by (simp add: nth_append k_def)
    from assms(2) k have "ok (field (ys ! k) ''parent_id'') \<or>
        (\<exists>j<k. nc (field (ys ! k) ''parent_id'') (field (ys ! j) ''comment_id''))"
      unfolding parent_before_child_def by blast
    then show ?thesis
    proof
      assume "ok (field (ys ! k) ''parent_id'')"
      then show ?thesis unfolding zi by (rule disjI1)
    next
      assume "\<exists>j<k. nc (field (ys ! k) ''parent_id'') (field (ys ! j) ''comment_id'')"
      then obtain j where j: "j < k"
        and n: "nc (field (ys ! k) ''parent_id'') (field (ys ! j) ''comment_id'')" by blast
      have lt: "length xs + j < i" using j False by (simp add: k_def)
      have zj: "?zs ! (length xs + j) = ys ! j" by simp
      have "length xs + j < i \<and>
          nc (field (?zs ! i) ''parent_id'') (field (?zs ! (length xs + j)) ''comment_id'')"
        unfolding zi zj using lt n by (rule conjI)
      then show ?thesis by (intro disjI2 exI)
    qed
  qed
qed

lemma ordered_after_child:
  assumes "ok (field r ''parent_id'')"
    "parent_before_child (\<lambda>p. nc p (field r ''comment_id'')) nc ys"
  shows "parent_before_child ok nc (r # ys)"
  unfolding parent_before_child_def
proof (intro allI impI)
  fix i assume i: "i < length (r # ys)"
  show "ok (field ((r # ys) ! i) ''parent_id'') \<or>
        (\<exists>j<i. nc (field ((r # ys) ! i) ''parent_id'') (field ((r # ys) ! j) ''comment_id''))"
  proof (cases i)
    case 0 then show ?thesis using assms(1) by simp
  next
    case (Suc k)
    then have "k < length ys" using i by simp
    with assms(2) have "nc (field (ys ! k) ''parent_id'') (field r ''comment_id'') \<or>
        (\<exists>j<k. nc (field (ys ! k) ''parent_id'') (field (ys ! j) ''comment_id''))"
      by (simp add: parent_before_child_def)
    then show ?thesis
    proof
      assume "nc (field (ys ! k) ''parent_id'') (field r ''comment_id'')"
      then have "nc (field ((r # ys) ! i) ''parent_id'') (field ((r # ys) ! 0) ''comment_id'')"
        using Suc by simp
      then show ?thesis using Suc by blast
    next
      assume "\<exists>j<k. nc (field (ys ! k) ''parent_id'') (field (ys ! j) ''comment_id'')"
      then obtain j where "j < k" "nc (field (ys ! k) ''parent_id'') (field (ys ! j) ''comment_id'')"
        by blast
      then have "Suc j < i \<and> nc (field ((r # ys) ! i) ''parent_id'') (field ((r # ys) ! Suc j) ''comment_id'')"
        using Suc by simp
      then show ?thesis by blast
    qed
  qed
qed

lemma walk_ordered:
  "walk post_id nodes acc = Inr acc' \<Longrightarrow> wf_nodes nc ok nodes \<Longrightarrow>
   \<exists>new. acc' = acc @ new \<and> parent_before_child ok nc new"
proof (induction post_id nodes acc arbitrary: ok acc' rule: walk.induct)
  case (1 post_id flattened)
  then show ?case by (simp add: parent_before_child_def)
next
  case (2 post_id node node_list flattened)
  from "2.prems"(1) obtain kind where kind: "py_get node ''kind'' = Inr kind"
    by (subst (asm) walk.simps(2)) (auto simp: ebind_def split: sum.splits)
  then have dict: "is_dict node" and fk: "field node ''kind'' = kind"
    by (cases node; simp add: py_get_def field_def)+
  have wf_rest: "wf_nodes nc ok node_list" using "2.prems"(2) by simp
  show ?case
  proof (cases "kind = JStr ''t1''")
    case False
    then have "walk post_id node_list flattened = Inr acc'"
      using "2.prems"(1) kind by (subst (asm) walk.simps(2)) (simp add: ebind_def)
    from "2.IH"(1) [OF kind False this wf_rest] show ?thesis .
  next
    case True
    note t1 = True
    from "2.prems"(1) kind True obtain d r replies
      where d: "py_get_default node ''data'' (JObj []) = Inr d"
        and r: "comment_record post_id d = Inr r"
        and replies: "py_get d ''replies'' = Inr replies"
      by (subst (asm) walk.simps(2)) (auto simp: ebind_def split: sum.splits)
    have notne: "\<not> kind \<noteq> JStr ''t1''" using True by simp
    have cd: "comment_data node = Some d" using dict fk True d by (simp add: comment_data_def)
    have fr: "field d ''replies'' = replies" using replies by (simp add: field_def)
    from "2.prems"(2) cd have ok: "ok (field d ''parent_id'')"
      and wf_sub: "wf_nodes nc (\<lambda>p. nc p (field d ''id'')) (reply_nodes d)" by simp_all
    note rf = comment_record_fields [OF r]
    show ?thesis
    proof (cases "is_dict replies")
      case False
      then have "walk post_id node_list (flattened @ [r]) = Inr acc'"
        using "2.prems"(1) kind t1 d r replies
        by (subst (asm) walk.simps(2)) (simp add: ebind_def)
      from "2.IH"(4) [OF kind notne d r replies False this wf_rest]
      obtain new where new: "acc' = (flattened @ [r]) @ new" "parent_before_child ok nc new"
        by blast
      have "parent_before_child ok nc [r]"
        using ok rf by (intro ordered_after_child) (simp_all add: parent_before_child_def)
      then have "parent_before_child ok nc ([r] @ new)" using new(2) by (rule ordered_after_append)
      then show ?thesis using new(1) by simp
    next
      case True
      from "2.prems"(1) kind t1 d r replies True obtain replies_data items flattened'
        where rc: "replies_children replies = Inr replies_data"
          and it: "py_iter replies_data = Inr items"
          and w1: "walk post_id items (flattened @ [r]) = Inr flattened'"
          and w2: "walk post_id node_list flattened' = Inr acc'"
        by (subst (asm) walk.simps(2)) (auto simp: ebind_def split: sum.splits)
      have rn: "reply_nodes d = items" using True fr rc it by (simp add: reply_nodes_def ebind_def)
      from "2.IH"(2) [OF kind notne d r replies True rc it w1] wf_sub rn
      obtain new1 where new1: "flattened' = (flattened @ [r]) @ new1"
        "parent_before_child (\<lambda>p. nc p (field d ''id'')) nc new1" by blast
      from "2.IH"(3) [OF kind notne d r replies True rc it w1 w2 wf_rest]
      obtain new2 where new2: "acc' = flattened' @ new2" "parent_before_child ok nc new2" by blast
      have "parent_before_child ok nc (r # new1)"
        using ok new1(2) rf by (intro ordered_after_child) simp_all
      then have "parent_before_child ok nc ((r # new1) @ new2)"
        using new2(2) by (rule ordered_after_append)
      then show ?thesis using new1(1) new2(1) by simp
    qed
  qed
qed

text \<open>
  Claim C7. A node whose kind tag is not \<^verbatim>\<open>t1\<close> is skipped entirely: walking a list
  that starts with such a node gives what walking the rest gives, whatever the node
  holds, so nothing is recorded for it and nothing below it is visited. Hence a listing
  of such nodes only is flattened to the empty list.
\<close>

theorem flatten_skips_non_comment:
  "(non_comment node \<longrightarrow>
      walk post_id (node # node_list) flattened = walk post_id node_list flattened) \<and>
   (list_all non_comment nodes \<longrightarrow> flatten_comments_tree (JList nodes) post_id = Inr [])"
proof (intro conjI impI)
  assume "non_comment node"
  then show "walk post_id (node # node_list) flattened = walk post_id node_list flattened"
    by (rule walk_non_comment)
next
  assume "list_all non_comment nodes"
  then have "walk post_id nodes [] = Inr []" by (rule walk_all_non_comment)
  then show "flatten_comments_tree (JList nodes) post_id = Inr []"
    by (simp add: flatten_comments_tree_def ebind_def)
qed

theorem flatten_skips_non_comment_witness:
  "walk (JStr ''p'') (sample_more # [sample_reply]) [] = walk (JStr ''p'') [sample_reply] [] \<and>
   flatten_comments_tree (JList [sample_more, sample_more]) (JStr ''p'') = Inr []"
proof -
  have n: "non_comment sample_more"
    by (simp add: non_comment_def sample_more_def field_def py_get_def)
  then have "list_all non_comment [sample_more, sample_more]" by simp
  with n flatten_skips_non_comment [of sample_more "JStr ''p''" "[sample_reply]" "[]"
      "[sample_more, sample_more]"]
  show ?thesis by blast
qed

text \<open>
  Claim C1. For a well-formed reply tree (the top-level comments' \<^verbatim>\<open>parent_id\<close> name the
  post, a nested comment's \<^verbatim>\<open>parent_id\<close> names the comment enclosing it), whenever
  \<^verbatim>\<open>flatten_comments_tree\<close> returns, every record of its result has a \<^verbatim>\<open>parent_id\<close>
  that names the post or the \<^verbatim>\<open>comment_id\<close> of a record strictly earlier in the result.
  The theorem holds for any reading of "names"; the API's prefixes are one.
\<close>

theorem flatten_parent_before_child:
  assumes "wf_nodes names_comment (\<lambda>p. names_post p post_id) nodes"
    and "flatten_comments_tree (JList nodes) post_id = Inr out"
  shows "parent_before_child (\<lambda>p. names_post p post_id) names_comment out"
proof -
  have "walk post_id nodes [] = Inr out"
    using assms(2) by (simp add: flatten_comments_tree_def ebind_def)
  from walk_ordered [OF this assms(1)] show ?thesis by simp
qed

theorem flatten_parent_before_child_witness:
  "flatten_comments_tree (JList [sample_comment]) (JStr ''p'') =
     Inr [JObj [(''post_id'', JStr ''p''), (''comment_id'', JStr ''a''),
                (''parent_id'', JStr ''t3_p''), (''author'', JNull), (''body'', JStr ''first''),
                (''score'', JNull), (''created_utc'', JNull)],
          JObj [(''post_id'', JStr ''p''), (''comment_id'', JStr ''b''),
                (''parent_id'', JStr ''t1_a''), (''author'', JNull), (''body'', JStr ''me too''),
                (''score'', JNull), (''created_utc'', JNull)]] \<and>
   parent_before_child (\<lambda>p. fullname ''t3_'' p (JStr ''p'')) (fullname ''t1_'')
     [JObj [(''post_id'', JStr ''p''), (''comment_id'', JStr ''a''),
                (''parent_id'', JStr ''t3_p''), (''author'', JNull), (''body'', JStr ''first''),
                (''score'', JNull), (''created_utc'', JNull)],
          JObj [(''post_id'', JStr ''p''), (''comment_id'', JStr ''b''),
                (''parent_id'', JStr ''t1_a''), (''author'', JNull), (''body'', JStr ''me too''),
                (''score'', JNull), (''created_utc'', JNull)]]"
proof -
  have wf: "wf_nodes (fullname ''t1_'') (\<lambda>p. fullname ''t3_'' p (JStr ''p'')) [sample_comment]"
    unfolding sample_comment_def sample_reply_def sample_more_def
    by (simp add: comment_data_def reply_nodes_def field_def py_get_def replies_children_def
          ebind_def fullname_def)
  have fl: "flatten_comments_tree (JList [sample_comment]) (JStr ''p'') =
     Inr [JObj [(''post_id'', JStr ''p''), (''comment_id'', JStr ''a''),
                (''parent_id'', JStr ''t3_p''), (''author'', JNull), (''body'', JStr ''first''),
                (''score'', JNull), (''created_utc'', JNull)],
          JObj [(''post_id'', JStr ''p''), (''comment_id'', JStr ''b''),
                (''parent_id'', JStr ''t1_a''), (''author'', JNull), (''body'', JStr ''me too''),
                (''score'', JNull), (''created_utc'', JNull)]]"
    unfolding sample_comment_def sample_reply_def sample_more_def
    by (simp add: flatten_comments_tree_def walk.simps(2) comment_record_def py_get_def
          replies_children_def ebind_def)
  from flatten_parent_before_child [where names_comment = "fullname ''t1_''"
      and names_post = "fullname ''t3_''", OF wf fl] fl
  show ?thesis by (rule conjI [rotated])
qed

section \<open>Comment fetching (extract_reddit.py)\<close>

text \<open>
  What \<^verbatim>\<open>requests.get\<close> returns: the status code and the decoded body, \<open>None\<close> when
  the body is not JSON (\<^verbatim>\<open>resp.json()\<close> raises then).
\<close>

record response =
  status_code :: int
  body :: "json option"

definition resp_json :: "response \<Rightarrow> py_error + json" where
  "resp_json resp = (case body resp of None \<Rightarrow> Inl JSONDecodeError | Some j \<Rightarrow> Inr j)"

text \<open>
  The effects of the extraction step on the outside world, in the order they happen:
  a comments request (post identifier and \<^verbatim>\<open>limit\<close>; the sort mode is always \<^verbatim>\<open>top\<close>), a
  listing request (subreddit, \<^verbatim>\<open>limit\<close>, and the \<^verbatim>\<open>after\<close> cursor once one is set), and
  \<^verbatim>\<open>time.sleep\<close> with its seconds. Console output is left out: \<^verbatim>\<open>print\<close> never raises
  here and changes no control flow.
\<close>

datatype effect =
    GetComments json int
  | GetListing string int "json option"
  | Sleep nat

record fetch_state =
  all_comments :: "json list"
  effects :: "effect list"

text \<open>How a loop body ends: by falling through or \<^verbatim>\<open>continue\<close>, or by \<^verbatim>\<open>break\<close>.\<close>

datatype 'a flow = Next 'a | Stop 'a

fun flow_state :: "'a flow \<Rightarrow> 'a" where
  "flow_state (Next s) = s"
| "flow_state (Stop s) = s"

text \<open>
  The decoded comments response, flattened: \<open>None\<close> when it does not have the expected
  two-part shape (the post is skipped), else the flattened second part.
\<close>

definition comments_of_response :: "json \<Rightarrow> json \<Rightarrow> py_error + json list option" where
  "comments_of_response data post_id =
     (case data of
        JList parts \<Rightarrow>
          if length parts < 2 then Inr None
          else ebind (replies_children (parts ! 1)) (\<lambda>comments_listing.
               ebind (flatten_comments_tree comments_listing post_id) (\<lambda>flat. Inr (Some flat)))
      | _ \<Rightarrow> Inr None)"

text \<open>The hard cap per post: \<^verbatim>\<open>if len(flat) > max_comments_per_post: flat = flat[:max_comments_per_post]\<close>\<close>

definition hard_cap :: "int \<Rightarrow> json list \<Rightarrow> json list" where
  "hard_cap max_comments_per_post flat =
     (if int (length flat) > max_comments_per_post then py_prefix flat max_comments_per_post
      else flat)"

text \<open>
  One iteration of the loop over the posts. \<open>srv i post_id\<close> is the server's response to
  the comments request made in iteration \<open>i\<close> (counted from 1, as \<^verbatim>\<open>enumerate\<close> does).
\<close>

definition fetch_body ::
  "(nat \<Rightarrow> json \<Rightarrow> response) \<Rightarrow> int \<Rightarrow> nat \<Rightarrow> json \<Rightarrow> fetch_state \<Rightarrow> py_error + fetch_state flow"
where
  "fetch_body srv max_comments_per_post i post st =
     ebind (py_get post ''id'') (\<lambda>post_id.
       if \<not> truthy post_id then Inr (Next st)
       else
         let resp = srv i post_id;
             st1 = st\<lparr>effects := effects st @ [GetComments post_id max_comments_per_post]\<rparr>
         in
           if status_code resp = 429 then Inr (Stop st1)
           else if status_code resp \<noteq> 200 then Inr (Next st1)
           else
             ebind (resp_json resp) (\<lambda>data.
             ebind (comments_of_response data post_id) (\<lambda>flat.
               case flat of
                 None \<Rightarrow> Inr (Next st1)
               | Some flat \<Rightarrow>
                   Inr (Next \<lparr>all_comments = all_comments st1 @ hard_cap max_comments_per_post flat,
                              effects = effects st1 @ [Sleep 1]\<rparr>))))"

fun fetch_loop ::
  "(nat \<Rightarrow> json \<Rightarrow> response) \<Rightarrow> int \<Rightarrow> nat \<Rightarrow> json list \<Rightarrow> fetch_state \<Rightarrow> py_error + fetch_state flow"
where
  "fetch_loop srv max_comments_per_post i [] st = Inr (Next st)"
| "fetch_loop srv max_comments_per_post i (post # posts) st =
     (case fetch_body srv max_comments_per_post i post st of
        Inl e \<Rightarrow> Inl e
      | Inr (Stop st') \<Rightarrow> Inr (Stop st')
      | Inr (Next st') \<Rightarrow> fetch_loop srv max_comments_per_post (Suc i) posts st')"

text \<open>
  \<^verbatim>\<open>fetch_comments_for_posts\<close>: the list it returns is \<open>all_comments\<close> of the final state;
  \<open>effects\<close> is what it did on the way.
\<close>

definition fetch_comments_for_posts ::
  "(nat \<Rightarrow> json \<Rightarrow> response) \<Rightarrow> json list \<Rightarrow> int \<Rightarrow> int \<Rightarrow> py_error + fetch_state"
where
  "fetch_comments_for_posts srv posts max_comments_per_post max_posts_with_comments =
     (case fetch_loop srv max_comments_per_post 1 (py_prefix posts max_posts_with_comments)
             \<lparr>all_comments = [], effects = []\<rparr> of
        Inl e \<Rightarrow> Inl e
      | Inr fl \<Rightarrow> Inr (flow_state fl))"

subsection \<open>A sample run\<close>

text \<open>
  The records the sample reply tree flattens to; four posts; and a server that fails the
  first request with status 500, answers the second with the sample tree, and answers
  the third with status 429.
\<close>

definition sample_records :: "json list" where
  "sample_records =
     [JObj [(''post_id'', JStr ''p''), (''comment_id'', JStr ''a''),
            (''parent_id'', JStr ''t3_p''), (''author'', JNull), (''body'', JStr ''first''),
            (''score'', JNull), (''created_utc'', JNull)],
      JObj [(''post_id'', JStr ''p''), (''comment_id'', JStr ''b''),
            (''parent_id'', JStr ''t1_a''), (''author'', JNull), (''body'', JStr ''me too''),
            (''score'', JNull), (''created_utc'', JNull)]]"

definition sample_posts :: "json list" where
  "sample_posts = [JObj [(''id'', JStr ''x'')], JObj [(''id'', JStr ''p'')],
                   JObj [(''id'', JStr ''q'')], JObj [(''id'', JStr ''r'')]]"

definition sample_server :: "nat \<Rightarrow> json \<Rightarrow> response" where
  "sample_server i post_id =
     (if i = 1 then \<lparr>status_code = 500, body = None\<rparr>
      else if i = 2 then
        \<lparr>status_code = 200,
         body = Some (JList [JObj [], JObj [(''data'', JObj [(''children'', JList [sample_comment])])]])\<rparr>
      else \<lparr>status_code = 429, body = None\<rparr>)"

subsection \<open>Properties of the comment fetcher\<close>

lemma sample_flatten:
  "flatten_comments_tree (JList [sample_comment]) (JStr ''p'') = Inr sample_records"
  unfolding sample_comment_def sample_reply_def sample_more_def sample_records_def
  by (simp add: flatten_comments_tree_def walk.simps(2) comment_record_def py_get_def
        replies_children_def ebind_def)

lemma sample_body_failed:
  "fetch_body sample_server cap (Suc 0) (JObj [(''id'', JStr ''x'')]) st =
     Inr (Next (st\<lparr>effects := effects st @ [GetComments (JStr ''x'') cap]\<rparr>))"
  by (simp add: fetch_body_def sample_server_def py_get_def ebind_def)

lemma sample_body_ok:
  "fetch_body sample_server cap (Suc (Suc 0)) (JObj [(''id'', JStr ''p'')]) st =
     Inr (Next \<lparr>all_comments = all_comments st @ hard_cap cap sample_records,
                effects = effects st @ [GetComments (JStr ''p'') cap, Sleep 1]\<rparr>)"
  by (simp add: fetch_body_def sample_server_def py_get_def ebind_def resp_json_def
        comments_of_response_def replies_children_def sample_flatten)

lemma fetch_loop_append:
  "fetch_loop srv cap i (xs @ ys) st =
     (case fetch_loop srv cap i xs st of
        Inr (Next st') \<Rightarrow> fetch_loop srv cap (i + length xs) ys st'
      | r \<Rightarrow> r)"
  by (induction xs arbitrary: i st) (auto split: sum.splits flow.splits)

lemma fetch_body_rate_limited:
  assumes "py_get post ''id'' = Inr post_id" "truthy post_id"
    "status_code (srv i post_id) = 429"
  shows "fetch_body srv cap i post st = Inr (Stop (st\<lparr>effects := effects st @ [GetComments post_id cap]\<rparr>))"
  using assms by (simp add: fetch_body_def ebind_def Let_def)

lemma hard_cap_length: "0 \<le> cap \<Longrightarrow> int (length (hard_cap cap flat)) \<le> cap"
  by (simp add: hard_cap_def py_prefix_def)

lemma hard_cap_take: "0 \<le> cap \<Longrightarrow> hard_cap cap flat = take (nat cap) flat"
  by (simp add: hard_cap_def py_prefix_def)

lemma fetch_body_cases:
  assumes "fetch_body srv cap i post st = Inr out"
  shows "all_comments (flow_state out) = all_comments st \<or>
     (\<exists>post_id data flat. py_get post ''id'' = Inr post_id \<and> truthy post_id \<and>
        status_code (srv i post_id) = 200 \<and> resp_json (srv i post_id) = Inr data \<and>
        comments_of_response data post_id = Inr (Some flat) \<and>
        all_comments (flow_state out) = all_comments st @ hard_cap cap flat)"
  using assms
  by (auto simp: fetch_body_def ebind_def Let_def split: sum.splits if_splits option.splits)

lemma fetch_body_chunk:
  assumes "0 \<le> cap" "fetch_body srv cap i post st = Inr out"
  shows "\<exists>chunk. all_comments (flow_state out) = all_comments st @ chunk \<and>
           int (length chunk) \<le> cap \<and>
           (\<forall>post_id data flat.
              py_get post ''id'' = Inr post_id \<and> truthy post_id \<and>
              status_code (srv i post_id) = 200 \<and> resp_json (srv i post_id) = Inr data \<and>
              comments_of_response data post_id = Inr (Some flat)
              \<longrightarrow> chunk = take (nat cap) flat)"
proof -
  from fetch_body_cases [OF assms(2)] show ?thesis
  proof
    assume same: "all_comments (flow_state out) = all_comments st"
    have "\<forall>post_id data flat.
              py_get post ''id'' = Inr post_id \<and> truthy post_id \<and>
              status_code (srv i post_id) = 200 \<and> resp_json (srv i post_id) = Inr data \<and>
              comments_of_response data post_id = Inr (Some flat)
              \<longrightarrow> [] = take (nat cap) flat"
    proof (intro allI impI)
      fix post_id data flat
      assume h: "py_get post ''id'' = Inr post_id \<and> truthy post_id \<and>
              status_code (srv i post_id) = 200 \<and> resp_json (srv i post_id) = Inr data \<and>
              comments_of_response data post_id = Inr (Some flat)"
      then have "fetch_body srv cap i post st =
          Inr (Next \<lparr>all_comments = all_comments st @ hard_cap cap flat,
                      effects = (effects st @ [GetComments post_id cap]) @ [Sleep 1]\<rparr>)"
        by (simp add: fetch_body_def ebind_def Let_def)
      with assms(2) same have "hard_cap cap flat = []" by auto
      then show "[] = take (nat cap) flat" using assms(1) by (simp add: hard_cap_take)
    qed
    with same assms(1) show ?thesis by (intro exI [of _ "[]"]) simp
  next
    assume "\<exists>post_id data flat. py_get post ''id'' = Inr post_id \<and> truthy post_id \<and>
        status_code (srv i post_id) = 200 \<and> resp_json (srv i post_id) = Inr data \<and>
        comments_of_response data post_id = Inr (Some flat) \<and>
        all_comments (flow_state out) = all_comments st @ hard_cap cap flat"
    then obtain post_id data flat where h: "py_get post ''id'' = Inr post_id"
        "resp_json (srv i post_id) = Inr data"
        "comments_of_response data post_id = Inr (Some flat)"
        "all_comments (flow_state out) = all_comments st @ hard_cap cap flat" by blast
    show ?thesis
      using h assms(1) by (intro exI [of _ "hard_cap cap flat"]) (auto simp: hard_cap_length hard_cap_take)
  qed
qed

lemma fetch_loop_bound:
  assumes "0 \<le> cap"
  shows "fetch_loop srv cap i posts st = Inr out \<Longrightarrow>
     int (length (all_comments (flow_state out))) \<le> int (length (all_comments st)) + cap * int (length posts)"
proof (induction posts arbitrary: i st)
  case Nil
  then show ?case by auto
next
  case (Cons post posts)
  from Cons.prems obtain fl where b: "fetch_body srv cap i post st = Inr fl"
    by (auto split: sum.splits)
  from fetch_body_chunk [OF assms b]
  have step: "int (length (all_comments (flow_state fl))) \<le> int (length (all_comments st)) + cap"
    by auto
  show ?case
  proof (cases fl)
    case (Stop st')
    then have "out = Stop st'" using Cons.prems b by simp
    moreover have "0 \<le> cap * int (length posts)" using assms by simp
    ultimately show ?thesis using step Stop by (simp add: algebra_simps)
  next
    case (Next st')
    then have "fetch_loop srv cap (Suc i) posts st' = Inr out" using Cons.prems b by simp
    from Cons.IH [OF this] step Next show ?thesis by (simp add: algebra_simps)
  qed
qed

text \<open>
  Claim C3. When the loop has run through the first \<open>k\<close> posts without stopping and the
  request for the next post is answered with status 429, the function returns at once:
  its comments are exactly those accumulated over the first \<open>k\<close> posts, and the request
  that was refused is the last effect, so no request is made for any later post.
\<close>

theorem rate_limit_stops_fetching:
  assumes "k < length (py_prefix posts max_posts_with_comments)"
    and "fetch_loop srv cap 1 (take k (py_prefix posts max_posts_with_comments))
           \<lparr>all_comments = [], effects = []\<rparr> = Inr (Next st_k)"
    and "py_get (py_prefix posts max_posts_with_comments ! k) ''id'' = Inr post_id"
    and "truthy post_id"
    and "status_code (srv (Suc k) post_id) = 429"
  shows "fetch_comments_for_posts srv posts cap max_posts_with_comments =
           Inr \<lparr>all_comments = all_comments st_k,
                effects = effects st_k @ [GetComments post_id cap]\<rparr>"
proof -
  let ?sub = "py_prefix posts max_posts_with_comments"
  have split: "?sub = take k ?sub @ (?sub ! k) # drop (Suc k) ?sub"
    using assms(1) by (simp add: id_take_nth_drop)
  have len: "length (take k ?sub) = k" using assms(1) by simp
  have "fetch_loop srv cap 1 ?sub \<lparr>all_comments = [], effects = []\<rparr> =
        fetch_loop srv cap (1 + k) ((?sub ! k) # drop (Suc k) ?sub) st_k"
    using assms(2) len by (subst split, subst fetch_loop_append) simp
  also have "\<dots> = Inr (Stop (st_k\<lparr>effects := effects st_k @ [GetComments post_id cap]\<rparr>))"
    using fetch_body_rate_limited [OF assms(3,4), of srv "Suc k" cap st_k] assms(5) by simp
  finally show ?thesis by (simp add: fetch_comments_for_posts_def)
qed

theorem rate_limit_stops_fetching_witness:
  "fetch_comments_for_posts sample_server sample_posts 20 250 =
     Inr \<lparr>all_comments = sample_records,
          effects = [GetComments (JStr ''x'') 20, GetComments (JStr ''p'') 20, Sleep 1,
                     GetComments (JStr ''q'') 20]\<rparr>"
proof -
  have sub: "py_prefix sample_posts 250 = sample_posts"
    by (simp add: py_prefix_def sample_posts_def)
  have k: "2 < length (py_prefix sample_posts 250)"
    unfolding sub by (simp add: sample_posts_def)
  have run: "fetch_loop sample_server 20 1 (take 2 (py_prefix sample_posts 250))
       \<lparr>all_comments = [], effects = []\<rparr> =
     Inr (Next \<lparr>all_comments = sample_records,
                effects = [GetComments (JStr ''x'') 20, GetComments (JStr ''p'') 20, Sleep 1]\<rparr>)"
    unfolding sub
    by (simp add: sample_posts_def sample_body_failed sample_body_ok numeral_2_eq_2
          hard_cap_def sample_records_def)
  have pid: "py_get (py_prefix sample_posts 250 ! 2) ''id'' = Inr (JStr ''q'')"
    unfolding sub by (simp add: sample_posts_def py_get_def)
  have st: "status_code (sample_server (Suc 2) (JStr ''q'')) = 429"
    by (simp add: sample_server_def)
  from rate_limit_stops_fetching [OF k run pid _ st] show ?thesis by simp
qed

text \<open>
  Claim C5. With a cap that is not negative, one iteration of the loop appends at most
  \<open>max_comments_per_post\<close> records to the result; when the request succeeds and the
  response has the expected shape, what it appends is the first \<open>max_comments_per_post\<close>
  records of the flattened listing, so the cut is made after flattening.
\<close>

theorem per_post_cap:
  assumes "0 \<le> max_comments_per_post"
    and "fetch_body srv max_comments_per_post i post st = Inr out"
  shows "\<exists>chunk. all_comments (flow_state out) = all_comments st @ chunk \<and>
           int (length chunk) \<le> max_comments_per_post \<and>
           (\<forall>post_id data flat.
              py_get post ''id'' = Inr post_id \<and> truthy post_id \<and>
              status_code (srv i post_id) = 200 \<and> resp_json (srv i post_id) = Inr data \<and>
              comments_of_response data post_id = Inr (Some flat)
              \<longrightarrow> chunk = take (nat max_comments_per_post) flat)"
  using assms by (rule fetch_body_chunk)

theorem per_post_cap_witness:
  "fetch_body sample_server 1 2 (JObj [(''id'', JStr ''p'')]) \<lparr>all_comments = [], effects = []\<rparr> =
     Inr (Next \<lparr>all_comments = take 1 sample_records,
                effects = [GetComments (JStr ''p'') 1, Sleep 1]\<rparr>) \<and>
   length sample_records = 2"
proof -
  have run: "fetch_body sample_server 1 2 (JObj [(''id'', JStr ''p'')])
       \<lparr>all_comments = [], effects = []\<rparr> =
     Inr (Next \<lparr>all_comments = hard_cap 1 sample_records,
                effects = [GetComments (JStr ''p'') 1, Sleep 1]\<rparr>)"
    by (simp add: sample_body_ok numeral_2_eq_2)
  have ok: "py_get (JObj [(''id'', JStr ''p'')]) ''id'' = Inr (JStr ''p'') \<and> truthy (JStr ''p'') \<and>
      status_code (sample_server 2 (JStr ''p'')) = 200 \<and>
      resp_json (sample_server 2 (JStr ''p'')) =
        Inr (JList [JObj [], JObj [(''data'', JObj [(''children'', JList [sample_comment])])]]) \<and>
      comments_of_response
        (JList [JObj [], JObj [(''data'', JObj [(''children'', JList [sample_comment])])]])
        (JStr ''p'') = Inr (Some sample_records)"
    by (simp add: py_get_def sample_server_def resp_json_def comments_of_response_def
          replies_children_def ebind_def sample_flatten)
  from per_post_cap [OF _ run] obtain chunk
    where c: "hard_cap 1 sample_records = chunk"
      and "\<forall>post_id data flat.
              py_get (JObj [(''id'', JStr ''p'')]) ''id'' = Inr post_id \<and> truthy post_id \<and>
              status_code (sample_server 2 post_id) = 200 \<and>
              resp_json (sample_server 2 post_id) = Inr data \<and>
              comments_of_response data post_id = Inr (Some flat)
              \<longrightarrow> chunk = take (nat 1) flat"
    by auto
  with ok have "chunk = take (nat 1) sample_records" by blast
  with c run show ?thesis by (simp add: sample_records_def)
qed

text \<open>
  Claim C8 does not hold of the code. The only \<^verbatim>\<open>time.sleep(1)\<close> is the last statement
  of the loop body, and every skip leaves the body by \<^verbatim>\<open>continue\<close> before it. In the
  sample run the request for post \<open>x\<close> fails with status 500 and the request for post
  \<open>p\<close> follows with no delay between the two.
\<close>

theorem no_delay_after_failed_request:
  "fetch_comments_for_posts sample_server (take 2 sample_posts) 20 250 =
     Inr \<lparr>all_comments = sample_records,
          effects = [GetComments (JStr ''x'') 20, GetComments (JStr ''p'') 20, Sleep 1]\<rparr>"
  by (simp add: fetch_comments_for_posts_def py_prefix_def sample_posts_def numeral_2_eq_2
        sample_body_failed sample_body_ok hard_cap_def sample_records_def)

section \<open>Text normalisation (sentiment.py, transform_clean.py)\<close>


text \<open>
  Whitespace, as \<^verbatim>\<open>\s\<close> in a pattern and \<^verbatim>\<open>str.strip()\<close> see it: tab to carriage return,
  the separators 28 to 31, the blank, and in the upper half NEL (133) and the no-break
  space (160).
\<close>

definition is_space :: "char \<Rightarrow> bool" where
  "is_space c = (let n = (of_char c :: nat) in
     (9 \<le> n \<and> n \<le> 13) \<or> (28 \<le> n \<and> n \<le> 32) \<or> n = 133 \<or> n = 160)"

text \<open>\<^verbatim>\<open>str.lower()\<close>, character by character: \<open>A\<close> to \<open>Z\<close> and the accented capitals 192 to
  222 (but not the multiplication sign 215) move up by 32.\<close>

definition char_lower :: "char \<Rightarrow> char" where
  "char_lower c = (let n = (of_char c :: nat) in
     if (65 \<le> n \<and> n \<le> 90) \<or> (192 \<le> n \<and> n \<le> 222 \<and> n \<noteq> 215)
     then char_of (n + 32) else c)"

definition py_lower :: "string \<Rightarrow> string" where
  "py_lower s = map char_lower s"

text \<open>\<^verbatim>\<open>str.strip()\<close> drops the whitespace at both ends.\<close>

definition py_rstrip :: "string \<Rightarrow> string" where
  "py_rstrip s = rev (dropWhile is_space (rev s))"

definition py_strip :: "string \<Rightarrow> string" where
  "py_strip s = py_rstrip (dropWhile is_space s)"

text \<open>
  The patterns of the two cleaners are alternatives of a literal followed by \<^verbatim>\<open>\S+\<close>.
  Such a pattern matches at the start of \<open>s\<close> when one of the literals is a prefix of
  \<open>s\<close> and the next character is not whitespace; the match then runs, greedily, to the
  end of the run of non-whitespace characters (no literal contains whitespace).

  \<open>sub_lit_run lits s\<close> is \<^verbatim>\<open>re.sub(pattern, '', s)\<close>: scanning from the left, a match is
  deleted and the scan goes on behind it, any other character is kept.
  \<open>search_lit_run lits s\<close> is \<^verbatim>\<open>re.search(pattern, s) is not None\<close>.
\<close>

definition lit_then_nonspace :: "string \<Rightarrow> string \<Rightarrow> bool" where
  "lit_then_nonspace lit s =
     (take (length lit) s = lit \<and>
      (case drop (length lit) s of [] \<Rightarrow> False | d # rest \<Rightarrow> \<not> is_space d))"

function sub_lit_run :: "string list \<Rightarrow> string \<Rightarrow> string" where
  "sub_lit_run lits [] = []"
| "sub_lit_run lits (c # cs) =
     (if list_ex (\<lambda>lit. lit_then_nonspace lit (c # cs)) lits
      then sub_lit_run lits (dropWhile (\<lambda>d. \<not> is_space d) cs)
      else c # sub_lit_run lits cs)"
  by pat_completeness auto
termination
  by (relation "measure (\<lambda>(lits, s). length s)")
     (auto simp: less_Suc_eq_le length_dropWhile_le)

fun search_lit_run :: "string list \<Rightarrow> string \<Rightarrow> bool" where
  "search_lit_run lits [] = False"
| "search_lit_run lits (c # cs) =
     (list_ex (\<lambda>lit. lit_then_nonspace lit (c # cs)) lits \<or> search_lit_run lits cs)"

text \<open>\<^verbatim>\<open>re.sub(r'\s+', ' ', s)\<close>: every maximal run of whitespace becomes one blank.\<close>

function collapse_ws :: "string \<Rightarrow> string" where
  "collapse_ws [] = []"
| "collapse_ws (c # cs) =
     (if is_space c then CHR '' '' # collapse_ws (dropWhile is_space cs)
      else c # collapse_ws cs)"
  by pat_completeness auto
termination
  by (relation "measure length") (auto simp: less_Suc_eq_le length_dropWhile_le)

text \<open>The character classes of the patterns, and the replacements by a blank.\<close>

definition is_az :: "char \<Rightarrow> bool" where
  "is_az c = (97 \<le> (of_char c :: nat) \<and> (of_char c :: nat) \<le> 122)"

definition is_AZ :: "char \<Rightarrow> bool" where
  "is_AZ c = (65 \<le> (of_char c :: nat) \<and> (of_char c :: nat) \<le> 90)"

definition is_09 :: "char \<Rightarrow> bool" where
  "is_09 c = (48 \<le> (of_char c :: nat) \<and> (of_char c :: nat) \<le> 57)"

definition markdown_chars :: "char list" where
  "markdown_chars = [CHR ''*'', CHR ''_'', CHR 0x60, CHR ''>'', CHR ''#'', CHR ''~'',
                     CHR ''['', CHR '']'', CHR ''('', CHR '')'']"

definition blank_markdown :: "char \<Rightarrow> char" where
  "blank_markdown c = (if c \<in> set markdown_chars then CHR '' '' else c)"

definition blank_non_lower_alnum :: "char \<Rightarrow> char" where
  "blank_non_lower_alnum c = (if \<not> (is_az c \<or> is_09 c \<or> is_space c) then CHR '' '' else c)"

definition blank_non_alnum :: "char \<Rightarrow> char" where
  "blank_non_alnum c =
     (if \<not> (is_az c \<or> is_AZ c \<or> is_09 c \<or> is_space c) then CHR '' '' else c)"

text \<open>
  The URL patterns: \<^verbatim>\<open>https?://\S+\<close> in sentiment.py, \<^verbatim>\<open>http\S+|www\.\S+\<close>
  (\<^verbatim>\<open>URL_PATTERN\<close>) in transform_clean.py.
\<close>

definition sentiment_url_pattern :: "string list" where
  "sentiment_url_pattern = [''http://'', ''https://'']"

definition URL_PATTERN :: "string list" where
  "URL_PATTERN = [''http'', ''www.'']"

text \<open>\<^verbatim>\<open>clean_text\<close> of sentiment.py on a string: lowercase, remove URLs, blank the markdown
  markers, blank what is not a lowercase letter, digit or whitespace, collapse, strip.\<close>

definition sentiment_clean :: "string \<Rightarrow> string" where
  "sentiment_clean text =
     (let text = py_lower text;
          text = sub_lit_run sentiment_url_pattern text;
          text = map blank_markdown text;
          text = map blank_non_lower_alnum text;
          text = py_strip (collapse_ws text)
      in text)"

text \<open>\<^verbatim>\<open>clean_text\<close> of transform_clean.py on a string: strip, remove URLs, lowercase,
  blank what is not a letter, digit or whitespace, collapse, strip.\<close>

definition transform_clean :: "string \<Rightarrow> string" where
  "transform_clean text =
     (let text = py_strip text;
          text = sub_lit_run URL_PATTERN text;
          text = py_lower text;
          text = map blank_non_alnum text;
          text = collapse_ws text
      in py_strip text)"

text \<open>Both cleaners return the empty string for anything that is not a string.\<close>

definition sentiment_clean_text :: "json \<Rightarrow> string" where
  "sentiment_clean_text text = (case text of JStr s \<Rightarrow> sentiment_clean s | _ \<Rightarrow> [])"

definition transform_clean_text :: "json \<Rightarrow> string" where
  "transform_clean_text text = (case text of JStr s \<Rightarrow> transform_clean s | _ \<Rightarrow> [])"

text \<open>
  The URL-like forms as the specification words them (a scheme \<^verbatim>\<open>http\<close> or \<^verbatim>\<open>https\<close>
  followed by non-whitespace, or \<^verbatim>\<open>www.\<close> followed by non-whitespace), and the narrower
  forms in which the scheme is followed by \<^verbatim>\<open>://\<close>.
\<close>

definition spec_url_forms :: "string list" where
  "spec_url_forms = [''http'', ''https'', ''www.'']"

definition scheme_url_forms :: "string list" where
  "scheme_url_forms = [''http://'', ''https://'', ''www.'']"

subsection \<open>The shape of cleaned text\<close>

text \<open>
  Cleaned text consists of lowercase letters and digits, with single blanks between
  words and none at either end.
\<close>

declare sub_lit_run.simps(2) [simp del]
declare collapse_ws.simps(2) [simp del]

definition lower_alnum :: "char \<Rightarrow> bool" where
  "lower_alnum c = (is_az c \<or> is_09 c)"

fun single_spaced :: "string \<Rightarrow> bool" where
  "single_spaced [] = True"
| "single_spaced (c # cs) =
     ((lower_alnum c \<or> (c = CHR '' '' \<and> (cs = [] \<or> lower_alnum (hd cs)))) \<and> single_spaced cs)"

definition tidy :: "string \<Rightarrow> bool" where
  "tidy s = (single_spaced s \<and> (s = [] \<or> (\<not> is_space (hd s) \<and> \<not> is_space (last s))))"

lemma py_rstrip_Nil [simp]: "py_rstrip [] = []"
  by (simp add: py_rstrip_def)

lemma py_rstrip_Cons:
  "py_rstrip (c # cs) = (if py_rstrip cs = [] \<and> is_space c then [] else c # py_rstrip cs)"
  by (auto simp: py_rstrip_def dropWhile_append dropWhile_eq_Nil_conv)

lemma lower_alnum_not_space: "lower_alnum c \<Longrightarrow> \<not> is_space c"
  by (auto simp: lower_alnum_def is_az_def is_09_def is_space_def)

lemma blank_is_space: "is_space CHR '' ''"
  by (simp add: is_space_def)

lemma char_lower_fix: "lower_alnum c \<or> c = CHR '' '' \<Longrightarrow> char_lower c = c"
  by (auto simp: lower_alnum_def is_az_def is_09_def char_lower_def)

lemma char_lower_not_AZ: "\<not> is_AZ (char_lower c)"
  by (auto simp: is_AZ_def char_lower_def Let_def)

lemma collapse_single_spaced:
  "\<forall>c\<in>set t. lower_alnum c \<or> is_space c \<Longrightarrow> single_spaced (collapse_ws t)"
proof (induction t rule: collapse_ws.induct)
  case 1
  then show ?case by simp
next
  case (2 c cs)
  show ?case
  proof (cases "is_space c")
    case False
    then have "lower_alnum c" using "2.prems" by simp
    moreover have "single_spaced (collapse_ws cs)" using "2.IH"(2) False "2.prems" by simp
    ultimately show ?thesis using False by (simp add: collapse_ws.simps(2))
  next
    case True
    let ?r = "dropWhile is_space cs"
    have sub: "\<forall>c\<in>set ?r. lower_alnum c \<or> is_space c"
      using "2.prems" set_dropWhileD by fastforce
    then have ss: "single_spaced (collapse_ws ?r)" using "2.IH"(1) True by simp
    have "collapse_ws ?r = [] \<or> lower_alnum (hd (collapse_ws ?r))"
    proof (cases ?r)
      case Nil
      then have "collapse_ws ?r = []" by (simp only: collapse_ws.simps(1))
      then show ?thesis ..
    next
      case (Cons d ds)
      then have nd: "\<not> is_space d" using hd_dropWhile [of is_space cs] by auto
      moreover have "d \<in> set ?r" using Cons by simp
      ultimately have "lower_alnum d" using sub by blast
      then show ?thesis using Cons nd by (simp add: collapse_ws.simps(2))
    qed
    then show ?thesis using True ss by (simp add: collapse_ws.simps(2))
  qed
qed

lemma single_spaced_dropWhile: "single_spaced s \<Longrightarrow> single_spaced (dropWhile P s)"
  by (induction s) auto

lemma py_rstrip_hd: "py_rstrip s \<noteq> [] \<Longrightarrow> hd (py_rstrip s) = hd s"
  by (cases s) (auto simp: py_rstrip_Cons split: if_splits)

lemma py_rstrip_last: "py_rstrip s \<noteq> [] \<Longrightarrow> \<not> is_space (last (py_rstrip s))"
  by (induction s) (auto simp: py_rstrip_Cons split: if_splits)

lemma single_spaced_rstrip: "single_spaced s \<Longrightarrow> single_spaced (py_rstrip s)"
proof (induction s)
  case Nil
  then show ?case by simp
next
  case (Cons c cs)
  then have ih: "single_spaced (py_rstrip cs)" by simp
  show ?case
  proof (cases "py_rstrip cs = []")
    case True
    then show ?thesis using Cons.prems by (auto simp: py_rstrip_Cons)
  next
    case False
    then have "cs \<noteq> []" by auto
    moreover have "hd (py_rstrip cs) = hd cs" using False by (rule py_rstrip_hd)
    ultimately show ?thesis using Cons.prems ih False by (auto simp: py_rstrip_Cons)
  qed
qed

lemma tidy_strip: "single_spaced s \<Longrightarrow> tidy (py_strip s)"
proof -
  assume s: "single_spaced s"
  let ?z = "dropWhile is_space s"
  have z: "single_spaced ?z" using s by (rule single_spaced_dropWhile)
  have hz: "?z \<noteq> [] \<Longrightarrow> \<not> is_space (hd ?z)" by (rule hd_dropWhile)
  have ss: "single_spaced (py_rstrip ?z)" using z by (rule single_spaced_rstrip)
  show ?thesis
  proof (cases "py_rstrip ?z = []")
    case True
    then show ?thesis by (simp only: tidy_def py_strip_def) simp
  next
    case False
    then have "?z \<noteq> []" by (metis py_rstrip_Nil)
    then have nz: "\<not> is_space (hd ?z)" by (rule hz)
    have e: "hd (py_rstrip ?z) = hd ?z" using False by (rule py_rstrip_hd)
    have "\<not> is_space (hd (py_rstrip ?z))" by (subst e) (rule nz)
    moreover have "\<not> is_space (last (py_rstrip ?z))" using False by (rule py_rstrip_last)
    ultimately show ?thesis using ss unfolding tidy_def py_strip_def by blast
  qed
qed

lemma strip_tidy: "tidy s \<Longrightarrow> py_strip s = s"
proof -
  assume t: "tidy s"
  have r: "\<And>u. u = [] \<or> \<not> is_space (last u) \<Longrightarrow> py_rstrip u = u"
  proof -
    fix u show "u = [] \<or> \<not> is_space (last u) \<Longrightarrow> py_rstrip u = u"
      by (induction u) (auto simp: py_rstrip_Cons split: if_splits)
  qed
  have "dropWhile is_space s = s" using t by (cases s) (auto simp: tidy_def)
  then show ?thesis using t r [of s] by (auto simp: py_strip_def tidy_def)
qed

lemma collapse_tidy: "single_spaced s \<Longrightarrow> collapse_ws s = s"
proof (induction s)
  case Nil
  then show ?case by simp
next
  case (Cons c cs)
  then have ih: "collapse_ws cs = cs" by simp
  show ?case
  proof (cases "lower_alnum c")
    case True
    then show ?thesis using ih lower_alnum_not_space by (simp add: collapse_ws.simps(2))
  next
    case False
    then have c: "c = CHR '' ''" and nx: "cs = [] \<or> lower_alnum (hd cs)" using Cons.prems by auto
    have "dropWhile is_space cs = cs" using nx lower_alnum_not_space by (cases cs) auto
    then show ?thesis using c ih blank_is_space by (simp add: collapse_ws.simps(2))
  qed
qed

lemma single_spaced_chars: "single_spaced s \<Longrightarrow> c \<in> set s \<Longrightarrow> lower_alnum c \<or> c = CHR '' ''"
  by (induction s) auto

lemma lower_tidy: "single_spaced s \<Longrightarrow> py_lower s = s"
  unfolding py_lower_def by (rule map_idI) (auto dest: single_spaced_chars intro: char_lower_fix)

lemma keep_lower_tidy:
  "single_spaced s \<Longrightarrow> map blank_non_lower_alnum s = s"
  by (rule map_idI) (auto dest: single_spaced_chars simp: lower_alnum_def blank_non_lower_alnum_def)

lemma keep_alnum_tidy:
  "single_spaced s \<Longrightarrow> map blank_non_alnum s = s"
  by (rule map_idI) (auto dest: single_spaced_chars simp: lower_alnum_def blank_non_alnum_def)

lemma markdown_not_alnum: "c \<in> set markdown_chars \<Longrightarrow> \<not> lower_alnum c \<and> c \<noteq> CHR '' ''"
  by (auto simp: markdown_chars_def lower_alnum_def is_az_def is_09_def)

lemma markdown_tidy:
  "single_spaced s \<Longrightarrow> map blank_markdown s = s"
  by (rule map_idI) (use markdown_not_alnum single_spaced_chars in \<open>auto simp: blank_markdown_def\<close>)

lemma sub_no_match: "\<not> search_lit_run lits s \<Longrightarrow> sub_lit_run lits s = s"
  by (induction s) (auto simp: sub_lit_run.simps(2))

lemma lit_in_text: "lit_then_nonspace lit s \<Longrightarrow> set lit \<subseteq> set s"
  unfolding lit_then_nonspace_def by (metis set_take_subset)

lemma search_needs_chars:
  "search_lit_run lits s \<Longrightarrow> \<exists>lit\<in>set lits. set lit \<subseteq> set s"
proof (induction s)
  case Nil
  then show ?case by simp
next
  case (Cons c cs)
  show ?case
  proof (cases "list_ex (\<lambda>lit. lit_then_nonspace lit (c # cs)) lits")
    case True
    then obtain lit where "lit \<in> set lits" "lit_then_nonspace lit (c # cs)"
      by (auto simp: list_ex_iff)
    then show ?thesis using lit_in_text by blast
  next
    case False
    then have "search_lit_run lits cs" using Cons.prems by simp
    then obtain lit where "lit \<in> set lits" "set lit \<subseteq> set cs" using Cons.IH by blast
    then show ?thesis by auto
  qed
qed

lemma keep_lower_chars:
  "\<forall>c\<in>set (map blank_non_lower_alnum t). lower_alnum c \<or> is_space c"
  by (auto simp: lower_alnum_def blank_is_space blank_non_lower_alnum_def)

lemma keep_alnum_lower_chars:
  "\<forall>c\<in>set (map blank_non_alnum (py_lower t)). lower_alnum c \<or> is_space c"
  by (auto simp: lower_alnum_def blank_is_space py_lower_def char_lower_not_AZ blank_non_alnum_def)

lemma sentiment_clean_tidy: "tidy (sentiment_clean x)"
  unfolding sentiment_clean_def Let_def
  by (intro tidy_strip collapse_single_spaced keep_lower_chars)

lemma transform_clean_tidy: "tidy (transform_clean x)"
  unfolding transform_clean_def Let_def
  by (intro tidy_strip collapse_single_spaced keep_alnum_lower_chars)

lemma tidy_no_char:
  assumes "tidy s" "\<not> lower_alnum c" "c \<noteq> CHR '' ''"
  shows "c \<notin> set s"
  using assms single_spaced_chars [of s c] by (auto simp: tidy_def)

lemma tidy_no_scheme_url: "tidy s \<Longrightarrow> \<not> search_lit_run [''http://'', ''https://'', ''www.''] s"
proof
  assume t: "tidy s" and "search_lit_run [''http://'', ''https://'', ''www.''] s"
  then obtain lit where "lit \<in> set [''http://'', ''https://'', ''www.'']" "set lit \<subseteq> set s"
    using search_needs_chars by blast
  then have "CHR '':'' \<in> set s \<or> CHR ''.'' \<in> set s" by auto
  moreover have "CHR '':'' \<notin> set s"
    using t by (rule tidy_no_char) (simp_all add: lower_alnum_def is_az_def is_09_def)
  moreover have "CHR ''.'' \<notin> set s"
    using t by (rule tidy_no_char) (simp_all add: lower_alnum_def is_az_def is_09_def)
  ultimately show False by blast
qed

lemma search_mono: "search_lit_run lits s \<Longrightarrow> set lits \<subseteq> set lits' \<Longrightarrow> search_lit_run lits' s"
  by (induction s) (auto simp: list_ex_iff)

lemma sentiment_clean_fix: 
  assumes "tidy y" shows "sentiment_clean y = y"
proof -
  have ss: "single_spaced y" using assms by (simp add: tidy_def)
  have "\<not> search_lit_run [''http://'', ''https://''] y"
    using tidy_no_scheme_url [OF assms] search_mono [of "[''http://'', ''https://'']" y
        "[''http://'', ''https://'', ''www.'']"] by auto
  then have "sub_lit_run [''http://'', ''https://''] y = y" by (rule sub_no_match)
  then show ?thesis
    unfolding sentiment_clean_def Let_def sentiment_url_pattern_def
    by (simp add: lower_tidy [OF ss] markdown_tidy [OF ss] keep_lower_tidy [OF ss]
          collapse_tidy [OF ss] strip_tidy [OF assms])
qed

lemma sub_length_le: "length (sub_lit_run lits s) \<le> length s"
proof (induction lits s rule: sub_lit_run.induct)
  case (1 lits)
  then show ?case by simp
next
  case (2 lits c cs)
  show ?case
  proof (cases "list_ex (\<lambda>lit. lit_then_nonspace lit (c # cs)) lits")
    case True
    with "2.IH"(1) have "length (sub_lit_run lits (dropWhile (\<lambda>d. \<not> is_space d) cs))
        \<le> length (dropWhile (\<lambda>d. \<not> is_space d) cs)" by simp
    also have "\<dots> \<le> length cs" by (rule length_dropWhile_le)
    finally show ?thesis using True by (simp add: sub_lit_run.simps(2))
  next
    case False
    with "2.IH"(2) show ?thesis by (simp add: sub_lit_run.simps(2))
  qed
qed

lemma sub_length_less: "search_lit_run lits s \<Longrightarrow> length (sub_lit_run lits s) < length s"
proof (induction s)
  case Nil
  then show ?case by simp
next
  case (Cons c cs)
  show ?case
  proof (cases "list_ex (\<lambda>lit. lit_then_nonspace lit (c # cs)) lits")
    case True
    have "length (sub_lit_run lits (dropWhile (\<lambda>d. \<not> is_space d) cs))
        \<le> length (dropWhile (\<lambda>d. \<not> is_space d) cs)" by (rule sub_length_le)
    also have "\<dots> \<le> length cs" by (rule length_dropWhile_le)
    finally show ?thesis using True by (simp add: sub_lit_run.simps(2))
  next
    case False
    then have "search_lit_run lits cs" using Cons.prems by simp
    from Cons.IH [OF this] False show ?thesis by (simp add: sub_lit_run.simps(2))
  qed
qed

lemma collapse_length_le: "length (collapse_ws s) \<le> length s"
proof (induction s rule: collapse_ws.induct)
  case 1
  then show ?case by simp
next
  case (2 c cs)
  show ?case
  proof (cases "is_space c")
    case True
    with "2.IH"(1) have "length (collapse_ws (dropWhile is_space cs)) \<le> length (dropWhile is_space cs)"
      by simp
    also have "\<dots> \<le> length cs" by (rule length_dropWhile_le)
    finally show ?thesis using True by (simp add: collapse_ws.simps(2))
  next
    case False
    with "2.IH"(2) show ?thesis by (simp add: collapse_ws.simps(2))
  qed
qed

lemma strip_length_le: "length (py_strip s) \<le> length s"
proof -
  have "length (py_strip s) \<le> length (dropWhile is_space s)"
    unfolding py_strip_def py_rstrip_def
    using length_dropWhile_le [of is_space "rev (dropWhile is_space s)"] by simp
  also have "\<dots> \<le> length s" by (rule length_dropWhile_le)
  finally show ?thesis .
qed

lemma transform_clean_fix_iff:
  assumes "tidy y"
  shows "transform_clean y = y \<longleftrightarrow> \<not> search_lit_run URL_PATTERN y"
  unfolding URL_PATTERN_def
proof
  assume same: "transform_clean y = y"
  show "\<not> search_lit_run [''http'', ''www.''] y"
  proof
    assume "search_lit_run [''http'', ''www.''] y"
    then have "length (sub_lit_run [''http'', ''www.''] y) < length y" by (rule sub_length_less)
    moreover have "length (transform_clean y) \<le> length (sub_lit_run [''http'', ''www.''] y)"
    proof -
      let ?u = "map blank_non_alnum (py_lower (sub_lit_run [''http'', ''www.''] y))"
      have "transform_clean y = py_strip (collapse_ws ?u)"
        unfolding transform_clean_def Let_def strip_tidy [OF assms] URL_PATTERN_def ..
      then have "length (transform_clean y) = length (py_strip (collapse_ws ?u))" by simp
      also have "\<dots> \<le> length (collapse_ws ?u)" by (rule strip_length_le)
      also have "\<dots> \<le> length ?u" by (rule collapse_length_le)
      also have "\<dots> = length (sub_lit_run [''http'', ''www.''] y)"
        by (simp add: py_lower_def)
      finally show ?thesis .
    qed
    ultimately show False using same by simp
  qed
next
  assume "\<not> search_lit_run [''http'', ''www.''] y"
  then have s: "sub_lit_run [''http'', ''www.''] y = y" by (rule sub_no_match)
  have ss: "single_spaced y" using assms by (simp add: tidy_def)
  show "transform_clean y = y"
    unfolding transform_clean_def Let_def URL_PATTERN_def
    by (simp add: strip_tidy [OF assms] s lower_tidy [OF ss] keep_alnum_tidy [OF ss]
          collapse_tidy [OF ss])
qed

lemma lit_then_nonspace_iff:
  "lit_then_nonspace lit s \<longleftrightarrow> (\<exists>d rest. s = lit @ d # rest \<and> \<not> is_space d)"
proof
  assume a: "lit_then_nonspace lit s"
  then obtain d rest where dr: "drop (length lit) s = d # rest" "\<not> is_space d"
    by (auto simp: lit_then_nonspace_def split: list.splits)
  have "s = take (length lit) s @ drop (length lit) s" by simp
  also have "\<dots> = lit @ d # rest" using a dr by (simp add: lit_then_nonspace_def)
  finally show "\<exists>d rest. s = lit @ d # rest \<and> \<not> is_space d" using dr(2) by blast
next
  assume "\<exists>d rest. s = lit @ d # rest \<and> \<not> is_space d"
  then show "lit_then_nonspace lit s" by (auto simp: lit_then_nonspace_def)
qed

lemma lit_then_nonspace_append: "lit_then_nonspace lit a \<Longrightarrow> lit_then_nonspace lit (a @ t)"
  unfolding lit_then_nonspace_iff by auto

lemma lit_then_nonspace_run:
  assumes "\<forall>d\<in>set lit. \<not> is_space d" "lit_then_nonspace lit s"
  shows "lit_then_nonspace lit (takeWhile (\<lambda>d. \<not> is_space d) s)"
proof -
  from assms(2) obtain d rest where s: "s = lit @ d # rest" and d: "\<not> is_space d"
    unfolding lit_then_nonspace_iff by blast
  have "takeWhile (\<lambda>d. \<not> is_space d) s = lit @ d # takeWhile (\<lambda>d. \<not> is_space d) rest"
    unfolding s using assms(1) d by (simp add: takeWhile_append2)
  then show ?thesis unfolding lit_then_nonspace_iff using d by blast
qed

lemma takeWhile_dropWhile_Nil: "takeWhile P (dropWhile P xs) = []"
  by (induction xs) auto

lemma sub_first_run:
  "\<exists>t. takeWhile (\<lambda>d. \<not> is_space d) s = takeWhile (\<lambda>d. \<not> is_space d) (sub_lit_run lits s) @ t"
proof (induction lits s rule: sub_lit_run.induct)
  case (1 lits)
  then show ?case by simp
next
  case (2 lits c cs)
  show ?case
  proof (cases "list_ex (\<lambda>lit. lit_then_nonspace lit (c # cs)) lits")
    case True
    let ?r = "dropWhile (\<lambda>d. \<not> is_space d) cs"
    from "2.IH"(1) [OF True] obtain t
      where "takeWhile (\<lambda>d. \<not> is_space d) ?r = takeWhile (\<lambda>d. \<not> is_space d) (sub_lit_run lits ?r) @ t"
      by blast
    moreover have "takeWhile (\<lambda>d. \<not> is_space d) ?r = []"
      by (rule takeWhile_dropWhile_Nil)
    ultimately have "takeWhile (\<lambda>d. \<not> is_space d) (sub_lit_run lits ?r) = []" by simp
    then show ?thesis using True by (simp add: sub_lit_run.simps(2))
  next
    case False
    from "2.IH"(2) [OF False] obtain t
      where "takeWhile (\<lambda>d. \<not> is_space d) cs = takeWhile (\<lambda>d. \<not> is_space d) (sub_lit_run lits cs) @ t"
      by blast
    then show ?thesis using False by (simp add: sub_lit_run.simps(2))
  qed
qed

lemma sub_keeps_no_match:
  assumes "\<forall>d\<in>set lit. \<not> is_space d" "lit_then_nonspace lit (c # sub_lit_run lits cs)"
  shows "lit_then_nonspace lit (c # cs)"
proof -
  let ?ns = "\<lambda>d. \<not> is_space d"
  obtain t where t: "takeWhile ?ns cs = takeWhile ?ns (sub_lit_run lits cs) @ t"
    using sub_first_run by blast
  have "\<exists>t'. takeWhile ?ns (c # cs) = takeWhile ?ns (c # sub_lit_run lits cs) @ t'"
  proof (cases "is_space c")
    case True
    then show ?thesis by simp
  next
    case False
    then have "takeWhile ?ns (c # cs) = takeWhile ?ns (c # sub_lit_run lits cs) @ t"
      using t by simp
    then show ?thesis ..
  qed
  then obtain t' where t': "takeWhile ?ns (c # cs) = takeWhile ?ns (c # sub_lit_run lits cs) @ t'"
    by blast
  have "lit_then_nonspace lit (takeWhile ?ns (c # sub_lit_run lits cs))"
    using assms by (rule lit_then_nonspace_run)
  then have "lit_then_nonspace lit (takeWhile ?ns (c # sub_lit_run lits cs) @ t')"
    by (rule lit_then_nonspace_append)
  then have "lit_then_nonspace lit (takeWhile ?ns (c # cs))" by (simp only: t')
  then have "lit_then_nonspace lit (takeWhile ?ns (c # cs) @ dropWhile ?ns (c # cs))"
    by (rule lit_then_nonspace_append)
  then show ?thesis by (simp only: takeWhile_dropWhile_id)
qed

lemma sub_removes_all:
  assumes "\<forall>lit\<in>set lits. \<forall>d\<in>set lit. \<not> is_space d"
  shows "\<not> search_lit_run lits (sub_lit_run lits s)"
  using assms
proof (induction lits s rule: sub_lit_run.induct)
  case (1 lits)
  then show ?case by simp
next
  case (2 lits c cs)
  show ?case
  proof (cases "list_ex (\<lambda>lit. lit_then_nonspace lit (c # cs)) lits")
    case True
    with "2.IH"(1) "2.prems" show ?thesis by (simp add: sub_lit_run.simps(2))
  next
    case False
    have "\<not> list_ex (\<lambda>lit. lit_then_nonspace lit (c # sub_lit_run lits cs)) lits"
    proof
      assume "list_ex (\<lambda>lit. lit_then_nonspace lit (c # sub_lit_run lits cs)) lits"
      then obtain lit where l: "lit \<in> set lits" "lit_then_nonspace lit (c # sub_lit_run lits cs)"
        by (auto simp: list_ex_iff)
      then have "lit_then_nonspace lit (c # cs)"
        using "2.prems" sub_keeps_no_match by blast
      then show False using False l(1) by (auto simp: list_ex_iff)
    qed
    moreover have "\<not> search_lit_run lits (sub_lit_run lits cs)"
      using "2.IH"(2) False "2.prems" by simp
    ultimately show ?thesis using False by (simp add: sub_lit_run.simps(2))
  qed
qed

subsection \<open>Properties of the cleaners\<close>

text \<open>The facts that evaluate the cleaners on a given string.\<close>

lemmas clean_eval = sentiment_clean_text_def transform_clean_text_def sentiment_clean_def
  transform_clean_def py_strip_def py_rstrip_def is_space_def lit_then_nonspace_def py_lower_def
  char_lower_def char_of_eq_iff is_az_def is_AZ_def is_09_def markdown_chars_def
  blank_markdown_def blank_non_lower_alnum_def blank_non_alnum_def sentiment_url_pattern_def
  URL_PATTERN_def spec_url_forms_def scheme_url_forms_def sub_lit_run.simps(2)
  collapse_ws.simps(2)

lemma tidy_Nil: "tidy []"
  by (simp add: tidy_def)

lemma sentiment_clean_text_tidy: "tidy (sentiment_clean_text x)"
  by (cases x) (simp_all add: sentiment_clean_text_def sentiment_clean_tidy tidy_Nil)

lemma transform_clean_text_tidy: "tidy (transform_clean_text x)"
  by (cases x) (simp_all add: transform_clean_text_def transform_clean_tidy tidy_Nil)

text \<open>
  Claim C4, as stated, fails for \<^verbatim>\<open>clean_text\<close> of transform_clean.py: it removes URLs
  before it lowercases, and its pattern is case-sensitive. \<^verbatim>\<open>"HTTPS"\<close> is cleaned to
  \<^verbatim>\<open>"https"\<close>, which the pattern \<^verbatim>\<open>http\S+\<close> matches, so cleaning again gives \<^verbatim>\<open>""\<close>.
\<close>

theorem transform_clean_text_not_idempotent:
  "transform_clean_text (JStr ''HTTPS'') = ''https'' \<and>
   transform_clean_text (JStr (transform_clean_text (JStr ''HTTPS''))) = [] \<and>
   transform_clean_text (JStr (transform_clean_text (JStr ''HTTPS''))) \<noteq>
     transform_clean_text (JStr ''HTTPS'')"
  by (simp add: clean_eval)

text \<open>
  Claim C4, amended. \<^verbatim>\<open>clean_text\<close> of sentiment.py is idempotent on every input.
  \<^verbatim>\<open>clean_text\<close> of transform_clean.py leaves its own output unchanged exactly when that
  output has no match of \<^verbatim>\<open>URL_PATTERN\<close>, that is, no \<^verbatim>\<open>http\<close> directly followed by
  another letter or digit.
\<close>

theorem clean_text_idempotence:
  "sentiment_clean_text (JStr (sentiment_clean_text x)) = sentiment_clean_text x \<and>
   (transform_clean_text (JStr (transform_clean_text x)) = transform_clean_text x
      \<longleftrightarrow> \<not> search_lit_run URL_PATTERN (transform_clean_text x))"
proof
  show "sentiment_clean_text (JStr (sentiment_clean_text x)) = sentiment_clean_text x"
    using sentiment_clean_fix [OF sentiment_clean_text_tidy [of x]]
    by (simp add: sentiment_clean_text_def)
  show "transform_clean_text (JStr (transform_clean_text x)) = transform_clean_text x
      \<longleftrightarrow> \<not> search_lit_run URL_PATTERN (transform_clean_text x)"
    using transform_clean_fix_iff [OF transform_clean_text_tidy [of x]]
    by (simp add: transform_clean_text_def)
qed

theorem clean_text_idempotence_witness:
  "sentiment_clean_text (JStr (sentiment_clean_text (JStr ''See HTTPS://a.b *now*''))) =
     sentiment_clean_text (JStr ''See HTTPS://a.b *now*'') \<and>
   transform_clean_text (JStr ''Hi, World'') = ''hi world'' \<and>
   transform_clean_text (JStr (transform_clean_text (JStr ''Hi, World''))) =
     transform_clean_text (JStr ''Hi, World'')"
proof -
  have v: "transform_clean_text (JStr ''Hi, World'') = ''hi world''"
    by (simp add: clean_eval)
  have "\<not> search_lit_run URL_PATTERN ''hi world''"
    by (simp add: clean_eval)
  with v clean_text_idempotence [of "JStr ''Hi, World''"] clean_text_idempotence [of "JStr ''See HTTPS://a.b *now*''"]
  show ?thesis by simp
qed

text \<open>The literals of a pattern are not empty and contain no whitespace.\<close>

definition nonspace_lits :: "string list \<Rightarrow> bool" where
  "nonspace_lits lits = list_all (\<lambda>lit. lit \<noteq> [] \<and> list_all (\<lambda>d. \<not> is_space d) lit) lits"

lemma match_starts_nonspace:
  assumes "nonspace_lits lits" "list_ex (\<lambda>lit. lit_then_nonspace lit (c # cs)) lits"
  shows "\<not> is_space c"
proof -
  from assms(2) obtain lit where l: "lit \<in> set lits" "lit_then_nonspace lit (c # cs)"
    by (auto simp: list_ex_iff)
  then obtain d rest where e: "c # cs = lit @ d # rest" unfolding lit_then_nonspace_iff by blast
  have "lit \<noteq> []" "\<forall>d\<in>set lit. \<not> is_space d"
    using assms(1) l(1) by (auto simp: nonspace_lits_def list_all_iff)
  then show ?thesis using e by (cases lit) auto
qed

lemma lit_then_nonspace_cut:
  assumes "\<forall>d\<in>set lit. \<not> is_space d" "r = [] \<or> is_space (hd r)"
  shows "lit_then_nonspace lit (m @ r) \<longleftrightarrow> lit_then_nonspace lit m"
proof
  assume "lit_then_nonspace lit m"
  then show "lit_then_nonspace lit (m @ r)" by (rule lit_then_nonspace_append)
next
  assume a: "lit_then_nonspace lit (m @ r)"
  let ?ns = "\<lambda>d. \<not> is_space d"
  have "lit_then_nonspace lit (takeWhile ?ns (m @ r))"
    using assms(1) a by (rule lit_then_nonspace_run)
  moreover have "\<exists>t. m = takeWhile ?ns (m @ r) @ t"
  proof (cases "\<forall>x\<in>set m. ?ns x")
    case True
    then have "takeWhile ?ns (m @ r) = m @ takeWhile ?ns r" by (simp add: takeWhile_append2)
    moreover have "takeWhile ?ns r = []" using assms(2) by (cases r) auto
    ultimately show ?thesis by simp
  next
    case False
    then have "takeWhile ?ns (m @ r) = takeWhile ?ns m"
      by (metis takeWhile_append1)
    then show ?thesis by (metis takeWhile_dropWhile_id)
  qed
  ultimately show "lit_then_nonspace lit m" by (metis lit_then_nonspace_append)
qed

lemma match_cut:
  assumes "nonspace_lits lits" "r = [] \<or> is_space (hd r)"
  shows "list_ex (\<lambda>lit. lit_then_nonspace lit (m @ r)) lits \<longleftrightarrow>
         list_ex (\<lambda>lit. lit_then_nonspace lit m) lits"
  using assms lit_then_nonspace_cut [OF _ assms(2)]
  by (auto simp: list_ex_iff nonspace_lits_def list_all_iff)

lemma dropWhile_nonspace_cut:
  assumes "r = [] \<or> is_space (hd r)"
  shows "dropWhile (\<lambda>d. \<not> is_space d) (cs @ r) = dropWhile (\<lambda>d. \<not> is_space d) cs @ r"
proof (cases "\<forall>x\<in>set cs. \<not> is_space x")
  case True
  then have "dropWhile (\<lambda>d. \<not> is_space d) (cs @ r) = dropWhile (\<lambda>d. \<not> is_space d) r"
    by (simp add: dropWhile_append2)
  moreover have "dropWhile (\<lambda>d. \<not> is_space d) r = r" using assms by (cases r) auto
  moreover have "dropWhile (\<lambda>d. \<not> is_space d) cs = []" using True by simp
  ultimately show ?thesis by simp
next
  case False
  then show ?thesis by (metis dropWhile_append1)
qed

lemma sub_spaces: "\<forall>c\<in>set w. is_space c \<Longrightarrow> nonspace_lits lits \<Longrightarrow> sub_lit_run lits w = w"
proof (induction w)
  case Nil
  then show ?case by simp
next
  case (Cons c w)
  have "\<not> list_ex (\<lambda>lit. lit_then_nonspace lit (c # w)) lits"
    using match_starts_nonspace [OF Cons.prems(2)] Cons.prems(1) by auto
  then show ?case using Cons by (simp add: sub_lit_run.simps(2))
qed

lemma sub_append_right:
  assumes "nonspace_lits lits" "r = [] \<or> is_space (hd r)"
  shows "sub_lit_run lits (m @ r) = sub_lit_run lits m @ sub_lit_run lits r"
  using assms
proof (induction lits m rule: sub_lit_run.induct)
  case (1 lits)
  then show ?case by simp
next
  case (2 lits c cs)
  let ?ns = "\<lambda>d. \<not> is_space d"
  have mc: "list_ex (\<lambda>lit. lit_then_nonspace lit ((c # cs) @ r)) lits \<longleftrightarrow>
         list_ex (\<lambda>lit. lit_then_nonspace lit (c # cs)) lits"
    using "2.prems" by (rule match_cut)
  show ?case
  proof (cases "list_ex (\<lambda>lit. lit_then_nonspace lit (c # cs)) lits")
    case True
    have "sub_lit_run lits ((c # cs) @ r) = sub_lit_run lits (dropWhile ?ns (cs @ r))"
      using True mc by (simp add: sub_lit_run.simps(2))
    also have "\<dots> = sub_lit_run lits (dropWhile ?ns cs @ r)"
      using "2.prems"(2) by (simp add: dropWhile_nonspace_cut)
    also have "\<dots> = sub_lit_run lits (dropWhile ?ns cs) @ sub_lit_run lits r"
      using "2.IH"(1) [OF True "2.prems"] .
    finally show ?thesis using True by (simp add: sub_lit_run.simps(2))
  next
    case False
    have "sub_lit_run lits ((c # cs) @ r) = c # sub_lit_run lits (cs @ r)"
      using False mc by (simp add: sub_lit_run.simps(2))
    also have "\<dots> = c # (sub_lit_run lits cs @ sub_lit_run lits r)"
      using "2.IH"(2) [OF False "2.prems"] by simp
    finally show ?thesis using False by (simp add: sub_lit_run.simps(2))
  qed
qed

lemma sub_append_left:
  assumes "nonspace_lits lits" "a = [] \<or> is_space (last a)"
  shows "sub_lit_run lits (a @ r) = sub_lit_run lits a @ sub_lit_run lits r"
proof (cases a rule: rev_cases)
  case Nil
  then show ?thesis by simp
next
  case (snoc a' c)
  then have c: "is_space c" using assms(2) by simp
  have one: "sub_lit_run lits (c # r) = c # sub_lit_run lits r"
    using match_starts_nonspace [OF assms(1), of c r] c by (auto simp: sub_lit_run.simps(2))
  have "sub_lit_run lits (a @ r) = sub_lit_run lits (a' @ (c # r))" using snoc by simp
  also have "\<dots> = sub_lit_run lits a' @ sub_lit_run lits (c # r)"
    using assms(1) c by (intro sub_append_right) simp_all
  also have "\<dots> = sub_lit_run lits a' @ sub_lit_run lits [c] @ sub_lit_run lits r"
    using one sub_spaces [of "[c]" lits] c assms(1) by simp
  also have "\<dots> = sub_lit_run lits (a' @ [c]) @ sub_lit_run lits r"
    using assms(1) c by (simp add: sub_append_right [of lits "[c]" a'])
  finally show ?thesis using snoc by simp
qed

lemma sub_url_token:
  assumes "\<forall>c\<in>set u. \<not> is_space c" "list_ex (\<lambda>lit. lit_then_nonspace lit u) lits"
    "b = [] \<or> is_space (hd b)"
  shows "sub_lit_run lits (u @ b) = sub_lit_run lits b"
proof -
  obtain c cs where u: "u = c # cs"
    using assms(2) by (cases u) (auto simp: list_ex_iff lit_then_nonspace_def)
  have "list_ex (\<lambda>lit. lit_then_nonspace lit (u @ b)) lits"
    using assms(2) lit_then_nonspace_append by (auto simp: list_ex_iff)
  then have "sub_lit_run lits (u @ b) = sub_lit_run lits (dropWhile (\<lambda>d. \<not> is_space d) (cs @ b))"
    unfolding u by (simp add: sub_lit_run.simps(2))
  also have "dropWhile (\<lambda>d. \<not> is_space d) (cs @ b) = b"
    using assms(1,3) unfolding u by (cases b) (simp_all add: dropWhile_append2)
  finally show ?thesis .
qed

lemma sub_subset: "set (sub_lit_run lits s) \<subseteq> set s"
proof (induction lits s rule: sub_lit_run.induct)
  case (1 lits)
  then show ?case by simp
next
  case (2 lits c cs)
  show ?case
  proof (cases "list_ex (\<lambda>lit. lit_then_nonspace lit (c # cs)) lits")
    case True
    with "2.IH"(1) have "set (sub_lit_run lits (c # cs)) \<subseteq> set (dropWhile (\<lambda>d. \<not> is_space d) cs)"
      by (simp add: sub_lit_run.simps(2))
    also have "\<dots> \<subseteq> set cs" by (auto dest: set_dropWhileD)
    finally show ?thesis by auto
  next
    case False
    with "2.IH"(2) show ?thesis by (auto simp: sub_lit_run.simps(2))
  qed
qed

lemma char_lower_idem: "char_lower (char_lower c) = char_lower c"
  by (auto simp: char_lower_def Let_def)

lemma char_lower_space: "is_space (char_lower c) = is_space c"
  by (auto simp: char_lower_def is_space_def Let_def)

lemma py_lower_append: "py_lower (a @ b) = py_lower a @ py_lower b"
  by (simp add: py_lower_def)

lemma py_lower_sub_lower: "py_lower (sub_lit_run lits (py_lower s)) = sub_lit_run lits (py_lower s)"
  unfolding py_lower_def [of "sub_lit_run lits (py_lower s)"]
proof (rule map_idI)
  fix c assume "c \<in> set (sub_lit_run lits (py_lower s))"
  then have "c \<in> set (py_lower s)" using sub_subset by blast
  then show "char_lower c = c" by (auto simp: py_lower_def char_lower_idem)
qed

lemma sub_idem:
  "nonspace_lits lits \<Longrightarrow> sub_lit_run lits (sub_lit_run lits s) = sub_lit_run lits s"
  by (rule sub_no_match, rule sub_removes_all) (auto simp: nonspace_lits_def list_all_iff)

lemma sentiment_lits: "nonspace_lits sentiment_url_pattern"
  by (simp add: nonspace_lits_def sentiment_url_pattern_def is_space_def)

lemma transform_lits: "nonspace_lits URL_PATTERN"
  by (simp add: nonspace_lits_def URL_PATTERN_def is_space_def)

lemma sentiment_clean_urls_deleted:
  "sentiment_clean (sub_lit_run sentiment_url_pattern (py_lower s)) = sentiment_clean s"
  unfolding sentiment_clean_def Let_def
  by (simp only: py_lower_sub_lower sub_idem [OF sentiment_lits])

lemma dropWhile_pad: "\<forall>c\<in>set w. P c \<Longrightarrow> dropWhile P (w @ t) = dropWhile P t"
  by (induction w) auto

lemma dropWhile_all: "\<forall>c\<in>set w. P c \<Longrightarrow> dropWhile P w = []"
  by (induction w) auto

lemma strip_parts:
  "\<exists>l r. s = l @ py_strip s @ r \<and> (\<forall>c\<in>set l. is_space c) \<and> (\<forall>c\<in>set r. is_space c)"
proof -
  let ?l = "takeWhile is_space s" and ?z = "dropWhile is_space s"
  let ?r = "rev (takeWhile is_space (rev ?z))"
  have "rev (takeWhile is_space (rev ?z) @ dropWhile is_space (rev ?z)) = ?z"
    by (simp only: takeWhile_dropWhile_id rev_rev_ident)
  then have "rev (dropWhile is_space (rev ?z)) @ ?r = ?z" by (simp only: rev_append)
  then have z: "py_rstrip ?z @ ?r = ?z" by (simp only: py_rstrip_def)
  have "?l @ ?z = s" by (rule takeWhile_dropWhile_id)
  then have "s = ?l @ py_strip s @ ?r" unfolding py_strip_def z ..
  moreover have "\<forall>c\<in>set ?l. is_space c" by (auto dest: set_takeWhileD)
  moreover have "\<forall>c\<in>set ?r. is_space c" by (auto dest: set_takeWhileD)
  ultimately show ?thesis by blast
qed

lemma rstrip_pad: "\<forall>c\<in>set r. is_space c \<Longrightarrow> py_rstrip (t @ r) = py_rstrip t"
  by (simp add: py_rstrip_def dropWhile_pad)

lemma strip_pad:
  assumes "\<forall>c\<in>set l. is_space c" "\<forall>c\<in>set r. is_space c"
  shows "py_strip (l @ y @ r) = py_strip y"
proof -
  have "dropWhile is_space (l @ y @ r) = dropWhile is_space (y @ r)"
    using assms(1) by (simp only: dropWhile_pad)
  moreover have "py_rstrip (dropWhile is_space (y @ r)) = py_rstrip (dropWhile is_space y)"
  proof (cases "\<forall>c\<in>set y. is_space c")
    case True
    then have "\<forall>c\<in>set (y @ r). is_space c" using assms(2) by auto
    then have "dropWhile is_space (y @ r) = []" by (rule dropWhile_all)
    moreover have "dropWhile is_space y = []" using True by (rule dropWhile_all)
    ultimately show ?thesis by (simp only:)
  next
    case False
    then have "dropWhile is_space (y @ r) = dropWhile is_space y @ r"
      by (metis dropWhile_append1)
    then show ?thesis using assms(2) by (simp add: rstrip_pad)
  qed
  ultimately show ?thesis by (simp add: py_strip_def)
qed

lemma collapse_lstrip: "dropWhile is_space (collapse_ws x) = collapse_ws (dropWhile is_space x)"
proof (cases x)
  case Nil
  then show ?thesis by simp
next
  case (Cons c cs)
  show ?thesis
  proof (cases "is_space c")
    case False
    then show ?thesis using Cons by (simp add: collapse_ws.simps(2))
  next
    case True
    let ?y = "dropWhile is_space cs"
    have "dropWhile is_space (collapse_ws ?y) = collapse_ws ?y"
    proof (cases ?y)
      case Nil
      then show ?thesis by (simp only: collapse_ws.simps(1)) simp
    next
      case (Cons d ds)
      then have "\<not> is_space d" using hd_dropWhile [of is_space cs] by auto
      then show ?thesis unfolding Cons by (simp add: collapse_ws.simps(2))
    qed
    then show ?thesis using True Cons blank_is_space by (simp add: collapse_ws.simps(2))
  qed
qed

lemma collapse_rstrip_pad:
  "\<forall>c\<in>set w. is_space c \<Longrightarrow> py_rstrip (collapse_ws (x @ w)) = py_rstrip (collapse_ws x)"
proof (induction x rule: collapse_ws.induct)
  case 1
  have "collapse_ws w = [] \<or> collapse_ws w = [CHR '' '']"
  proof (cases w)
    case Nil
    then show ?thesis by simp
  next
    case (Cons c cs)
    then have "dropWhile is_space cs = []" using "1.prems" by (intro dropWhile_all) simp
    then have "collapse_ws (dropWhile is_space cs) = []" by (simp only: collapse_ws.simps(1))
    then show ?thesis using Cons "1.prems" by (simp add: collapse_ws.simps(2))
  qed
  then show ?case using blank_is_space by (auto simp: py_rstrip_def)
next
  case (2 c cs)
  show ?case
  proof (cases "is_space c")
    case False
    then have "py_rstrip (collapse_ws (cs @ w)) = py_rstrip (collapse_ws cs)"
      using "2.IH"(2) "2.prems" by simp
    then show ?thesis using False by (simp add: collapse_ws.simps(2) py_rstrip_Cons)
  next
    case True
    let ?y = "dropWhile is_space cs"
    have ih: "py_rstrip (collapse_ws (?y @ w)) = py_rstrip (collapse_ws ?y)"
      using "2.IH"(1) True "2.prems" by simp
    have "dropWhile is_space (cs @ w) = ?y @ w \<or>
          (dropWhile is_space (cs @ w) = [] \<and> ?y = [])"
    proof (cases "\<forall>c\<in>set cs. is_space c")
      case True
      then have "\<forall>c\<in>set (cs @ w). is_space c" using "2.prems" by auto
      then have "dropWhile is_space (cs @ w) = []" by (rule dropWhile_all)
      moreover have "dropWhile is_space cs = []" using True by (rule dropWhile_all)
      ultimately show ?thesis by blast
    next
      case False
      then show ?thesis by (metis dropWhile_append1)
    qed
    then have "py_rstrip (collapse_ws (dropWhile is_space (cs @ w))) = py_rstrip (collapse_ws ?y)"
    proof
      assume "dropWhile is_space (cs @ w) = ?y @ w"
      then show ?thesis using ih by (simp only:)
    next
      assume "dropWhile is_space (cs @ w) = [] \<and> ?y = []"
      then show ?thesis by (simp only:)
    qed
    then show ?thesis using True by (simp add: collapse_ws.simps(2) py_rstrip_Cons)
  qed
qed

lemma collapse_strip_pad:
  assumes "\<forall>c\<in>set l. is_space c" "\<forall>c\<in>set r. is_space c"
  shows "py_strip (collapse_ws (l @ x @ r)) = py_strip (collapse_ws x)"
proof -
  have "py_strip (collapse_ws (l @ x @ r)) = py_rstrip (collapse_ws (dropWhile is_space (l @ x @ r)))"
    by (simp add: py_strip_def collapse_lstrip)
  also have "dropWhile is_space (l @ x @ r) = dropWhile is_space (x @ r)"
    using assms(1) by (simp only: dropWhile_pad)
  also have "py_rstrip (collapse_ws (dropWhile is_space (x @ r))) =
             py_rstrip (collapse_ws (dropWhile is_space x))"
  proof (cases "\<forall>c\<in>set x. is_space c")
    case True
    then have "\<forall>c\<in>set (x @ r). is_space c" using assms(2) by auto
    then have "dropWhile is_space (x @ r) = []" by (rule dropWhile_all)
    moreover have "dropWhile is_space x = []" using True by (rule dropWhile_all)
    ultimately show ?thesis by (simp only:)
  next
    case False
    then have "dropWhile is_space (x @ r) = dropWhile is_space x @ r"
      by (metis dropWhile_append1)
    then show ?thesis using assms(2) by (simp add: collapse_rstrip_pad)
  qed
  also have "\<dots> = py_strip (collapse_ws x)" by (simp add: py_strip_def collapse_lstrip)
  finally show ?thesis .
qed

text \<open>
  A URL token of a pattern inside a text \<open>a @ u @ b\<close>: \<open>u\<close> is free of whitespace and starts
  with one of the literals and at least one more character, and it is set off by
  whitespace or the ends of the text on both sides.
\<close>

definition url_token :: "string list \<Rightarrow> string \<Rightarrow> string \<Rightarrow> string \<Rightarrow> bool" where
  "url_token lits a u b =
     ((a = [] \<or> is_space (last a)) \<and> (b = [] \<or> is_space (hd b)) \<and>
      list_all (\<lambda>c. \<not> is_space c) u \<and> list_ex (\<lambda>lit. lit_then_nonspace lit u) lits)"

lemma spaces_last: "\<forall>c\<in>set l. is_space c \<Longrightarrow> l = [] \<or> is_space (last l)"
  by (cases l rule: rev_cases) auto

lemma spaces_hd: "\<forall>c\<in>set r. is_space c \<Longrightarrow> r = [] \<or> is_space (hd r)"
  by (cases r) auto

lemma sub_padded:
  assumes "nonspace_lits lits" "\<forall>c\<in>set l. is_space c" "\<forall>c\<in>set r. is_space c"
  shows "sub_lit_run lits (l @ y @ r) = l @ sub_lit_run lits y @ r"
proof -
  have "sub_lit_run lits (l @ y @ r) = sub_lit_run lits l @ sub_lit_run lits (y @ r)"
    using assms(1) spaces_last [OF assms(2)] by (rule sub_append_left)
  also have "sub_lit_run lits (y @ r) = sub_lit_run lits y @ sub_lit_run lits r"
    using assms(1) spaces_hd [OF assms(3)] by (rule sub_append_right)
  finally show ?thesis
    using sub_spaces [OF assms(2,1)] sub_spaces [OF assms(3,1)] by simp
qed

lemma sub_strip_fixed:
  assumes "nonspace_lits lits" "sub_lit_run lits z = z"
  shows "sub_lit_run lits (py_strip z) = py_strip z"
proof -
  obtain l r where z: "z = l @ py_strip z @ r"
    and l: "\<forall>c\<in>set l. is_space c" and r: "\<forall>c\<in>set r. is_space c"
    using strip_parts by blast
  have "sub_lit_run lits (l @ py_strip z @ r) = l @ sub_lit_run lits (py_strip z) @ r"
    using assms(1) l r by (rule sub_padded)
  then have "l @ sub_lit_run lits (py_strip z) @ r = l @ py_strip z @ r"
    using assms(2) z by simp
  then show ?thesis by simp
qed

lemma blank_lower_space: "is_space c \<Longrightarrow> is_space (blank_non_alnum (char_lower c))"
  by (simp add: blank_non_alnum_def char_lower_space)

lemma transform_tail_strip:
  "py_strip (collapse_ws (map blank_non_alnum (py_lower (py_strip z)))) =
   py_strip (collapse_ws (map blank_non_alnum (py_lower z)))"
proof -
  obtain l r where z: "z = l @ py_strip z @ r"
    and l: "\<forall>c\<in>set l. is_space c" and r: "\<forall>c\<in>set r. is_space c"
    using strip_parts by blast
  let ?g = "\<lambda>y. map blank_non_alnum (py_lower y)"
  have "?g z = ?g l @ ?g (py_strip z) @ ?g r"
    by (subst z) (simp add: py_lower_def)
  moreover have "\<forall>c\<in>set (?g l). is_space c" "\<forall>c\<in>set (?g r). is_space c"
    using l r by (auto simp: py_lower_def blank_lower_space)
  ultimately show ?thesis by (simp only: collapse_strip_pad)
qed

lemma transform_clean_urls_deleted:
  "transform_clean (sub_lit_run URL_PATTERN s) = transform_clean s"
proof -
  obtain l r where s: "s = l @ py_strip s @ r"
    and l: "\<forall>c\<in>set l. is_space c" and r: "\<forall>c\<in>set r. is_space c"
    using strip_parts by blast
  let ?z = "sub_lit_run URL_PATTERN (py_strip s)"
  have "sub_lit_run URL_PATTERN (l @ py_strip s @ r) = l @ ?z @ r"
    using transform_lits l r by (rule sub_padded)
  then have "sub_lit_run URL_PATTERN s = l @ ?z @ r" using s by simp
  then have st: "py_strip (sub_lit_run URL_PATTERN s) = py_strip ?z"
    using l r by (simp only: strip_pad)
  have fixed: "sub_lit_run URL_PATTERN (py_strip ?z) = py_strip ?z"
    using transform_lits sub_idem [OF transform_lits] by (rule sub_strip_fixed)
  show ?thesis
    unfolding transform_clean_def Let_def st fixed by (rule transform_tail_strip)
qed

lemma sub_token_removed:
  assumes "nonspace_lits lits" "url_token lits a u b"
  shows "sub_lit_run lits (a @ u @ b) = sub_lit_run lits (a @ b)"
proof -
  have a: "a = [] \<or> is_space (last a)" and b: "b = [] \<or> is_space (hd b)"
    and u: "\<forall>c\<in>set u. \<not> is_space c" and m: "list_ex (\<lambda>lit. lit_then_nonspace lit u) lits"
    using assms(2) by (simp_all add: url_token_def list_all_iff)
  have "sub_lit_run lits (a @ u @ b) = sub_lit_run lits a @ sub_lit_run lits (u @ b)"
    using assms(1) a by (rule sub_append_left)
  also have "sub_lit_run lits (u @ b) = sub_lit_run lits b" using u m b by (rule sub_url_token)
  also have "sub_lit_run lits a @ sub_lit_run lits b = sub_lit_run lits (a @ b)"
    using assms(1) a by (rule sub_append_left [symmetric])
  finally show ?thesis .
qed

lemma url_token_lower:
  assumes "url_token lits a u b"
  shows "url_token lits (py_lower a) u (py_lower b)"
proof -
  have "py_lower a = [] \<or> is_space (last (py_lower a))"
    using assms by (cases a rule: rev_cases) (auto simp: url_token_def py_lower_def char_lower_space)
  moreover have "py_lower b = [] \<or> is_space (hd (py_lower b))"
    using assms by (cases b) (auto simp: url_token_def py_lower_def char_lower_space)
  ultimately show ?thesis using assms by (simp add: url_token_def)
qed

lemma sentiment_clean_token:
  assumes "url_token sentiment_url_pattern a (py_lower u) b"
  shows "sentiment_clean (a @ u @ b) = sentiment_clean (a @ b)"
proof -
  have "sub_lit_run sentiment_url_pattern (py_lower a @ py_lower u @ py_lower b) =
        sub_lit_run sentiment_url_pattern (py_lower a @ py_lower b)"
    using sentiment_lits url_token_lower [OF assms] by (rule sub_token_removed)
  then show ?thesis by (simp add: sentiment_clean_def py_lower_append)
qed

lemma transform_clean_token:
  assumes "url_token URL_PATTERN a u b"
  shows "transform_clean (a @ u @ b) = transform_clean (a @ b)"
proof -
  have "transform_clean (a @ u @ b) = transform_clean (sub_lit_run URL_PATTERN (a @ u @ b))"
    by (rule transform_clean_urls_deleted [symmetric])
  also have "\<dots> = transform_clean (sub_lit_run URL_PATTERN (a @ b))"
    using sub_token_removed [OF transform_lits assms] by simp
  also have "\<dots> = transform_clean (a @ b)" by (rule transform_clean_urls_deleted)
  finally show ?thesis .
qed


text \<open>
  Claim C6, as stated, fails for both cleaners: a scheme \<^verbatim>\<open>http\<close> followed by
  non-whitespace can survive. sentiment.py removes a URL only when \<^verbatim>\<open>://\<close> follows the
  scheme and has no rule for \<^verbatim>\<open>www.\<close>, so \<^verbatim>\<open>"www.httpbin.org"\<close> is cleaned to
  \<^verbatim>\<open>"www httpbin org"\<close>; transform_clean.py matches case-sensitively before it lowercases,
  so \<^verbatim>\<open>"HTTPS://EXAMPLE.COM"\<close> is cleaned to \<^verbatim>\<open>"https example com"\<close>.
\<close>

theorem spec_url_form_survives:
  "sentiment_clean_text (JStr ''www.httpbin.org'') = ''www httpbin org'' \<and>
   search_lit_run spec_url_forms (sentiment_clean_text (JStr ''www.httpbin.org'')) \<and>
   transform_clean_text (JStr ''HTTPS://EXAMPLE.COM'') = ''https example com'' \<and>
   search_lit_run spec_url_forms (transform_clean_text (JStr ''HTTPS://EXAMPLE.COM''))"
  by (simp add: clean_eval)

text \<open>
  Claim C6, amended. Each cleaner strips every match of its own URL pattern without a
  trace: \<^verbatim>\<open>https?://\S+\<close> in any letter case for sentiment.py (it lowercases first, and has
  no rule for \<^verbatim>\<open>www.\<close>), \<^verbatim>\<open>http\S+|www\.\S+\<close> as written in lower case for transform_clean.py
  (it lowercases afterwards). That is: cleaning a text gives what cleaning gives once
  all matches have been deleted from it, and the deletion leaves no match; a URL token
  set off by whitespace can be taken out of the input without changing the output;
  and no substring of the form \<^verbatim>\<open>http://\<close>, \<^verbatim>\<open>https://\<close> or \<^verbatim>\<open>www.\<close> followed by
  non-whitespace occurs in the output of either cleaner.
\<close>

theorem url_forms_removed:
  "sentiment_clean_text (JStr (sub_lit_run sentiment_url_pattern (py_lower s))) =
     sentiment_clean_text (JStr s) \<and>
   \<not> search_lit_run sentiment_url_pattern (sub_lit_run sentiment_url_pattern (py_lower s)) \<and>
   transform_clean_text (JStr (sub_lit_run URL_PATTERN s)) = transform_clean_text (JStr s) \<and>
   \<not> search_lit_run URL_PATTERN (sub_lit_run URL_PATTERN s) \<and>
   (url_token sentiment_url_pattern a (py_lower u) b \<longrightarrow>
      sentiment_clean_text (JStr (a @ u @ b)) = sentiment_clean_text (JStr (a @ b))) \<and>
   (url_token URL_PATTERN a u b \<longrightarrow>
      transform_clean_text (JStr (a @ u @ b)) = transform_clean_text (JStr (a @ b))) \<and>
   \<not> search_lit_run scheme_url_forms (sentiment_clean_text x) \<and>
   \<not> search_lit_run scheme_url_forms (transform_clean_text x)"
proof (intro conjI impI)
  show "sentiment_clean_text (JStr (sub_lit_run sentiment_url_pattern (py_lower s))) =
     sentiment_clean_text (JStr s)"
    by (simp add: sentiment_clean_text_def sentiment_clean_urls_deleted)
  show "transform_clean_text (JStr (sub_lit_run URL_PATTERN s)) = transform_clean_text (JStr s)"
    by (simp add: transform_clean_text_def transform_clean_urls_deleted)
  show "\<not> search_lit_run sentiment_url_pattern (sub_lit_run sentiment_url_pattern (py_lower s))"
    by (rule sub_removes_all) (simp add: sentiment_url_pattern_def is_space_def)
  show "\<not> search_lit_run URL_PATTERN (sub_lit_run URL_PATTERN s)"
    by (rule sub_removes_all) (simp add: URL_PATTERN_def is_space_def)
  show "\<not> search_lit_run scheme_url_forms (sentiment_clean_text x)"
    unfolding scheme_url_forms_def by (rule tidy_no_scheme_url) (rule sentiment_clean_text_tidy)
  show "\<not> search_lit_run scheme_url_forms (transform_clean_text x)"
    unfolding scheme_url_forms_def by (rule tidy_no_scheme_url) (rule transform_clean_text_tidy)
next
  assume "url_token sentiment_url_pattern a (py_lower u) b"
  then show "sentiment_clean_text (JStr (a @ u @ b)) = sentiment_clean_text (JStr (a @ b))"
    by (simp add: sentiment_clean_text_def sentiment_clean_token)
next
  assume "url_token URL_PATTERN a u b"
  then show "transform_clean_text (JStr (a @ u @ b)) = transform_clean_text (JStr (a @ b))"
    by (simp add: transform_clean_text_def transform_clean_token)
qed


theorem url_forms_removed_witness:
  "sentiment_clean_text (JStr ''see HTTP://evil.example/x now'') =
     sentiment_clean_text (JStr ''see  now'') \<and>
   sentiment_clean_text (JStr ''see HTTP://evil.example/x now'') = ''see now'' \<and>
   transform_clean_text (JStr ''see http://evil.example/x now'') =
     transform_clean_text (JStr ''see  now'') \<and>
   transform_clean_text (JStr ''see http://evil.example/x now'') = ''see now''"
proof -
  have t1: "url_token sentiment_url_pattern ''see '' (py_lower ''HTTP://evil.example/x'') '' now''"
    by (simp add: url_token_def clean_eval)
  have t2: "url_token URL_PATTERN ''see '' ''http://evil.example/x'' '' now''"
    by (simp add: url_token_def clean_eval)
  have v1: "sentiment_clean_text (JStr ''see  now'') = ''see now''" by (simp add: clean_eval)
  have v2: "transform_clean_text (JStr ''see  now'') = ''see now''" by (simp add: clean_eval)
  from url_forms_removed [of _ "''see ''" "''HTTP://evil.example/x''" "'' now''"] t1
  have s: "sentiment_clean_text (JStr ''see HTTP://evil.example/x now'') =
     sentiment_clean_text (JStr ''see  now'')" by simp
  from url_forms_removed [of _ "''see ''" "''http://evil.example/x''" "'' now''"] t2
  have t: "transform_clean_text (JStr ''see http://evil.example/x now'') =
     transform_clean_text (JStr ''see  now'')" by simp
  from s t v1 v2 show ?thesis by simp
qed

section \<open>Sentiment annotation (sentiment.py)\<close>

text \<open>
  What \<^verbatim>\<open>analyzer.polarity_scores\<close> returns. The scorer is an external library; it is a
  parameter \<open>polarity_scores\<close> of the model.
\<close>

record scores =
  neg :: rat
  neu :: rat
  pos :: rat
  compound :: rat

text \<open>\<^verbatim>\<open>entry[k] = v\<close>: the value of an existing key is replaced in place, a new key is
  added at the end.\<close>

fun py_setitem :: "json \<Rightarrow> string \<Rightarrow> json \<Rightarrow> py_error + json" where
  "py_setitem (JObj kvs) k v = Inr (JObj (AList.update k v kvs))"
| "py_setitem _ k v = Inl TypeError"

text \<open>\<^verbatim>\<open>entry.get("body") or entry.get("comment") or ""\<close>\<close>

definition select_text :: "json \<Rightarrow> py_error + json" where
  "select_text entry =
     ebind (py_get entry ''body'') (\<lambda>body.
     ebind (py_get entry ''comment'') (\<lambda>comment.
       Inr (py_or (py_or body comment) (JStr []))))"

text \<open>The body of the loop over the loaded entries.\<close>

definition annotate :: "(string \<Rightarrow> scores) \<Rightarrow> json \<Rightarrow> py_error + json" where
  "annotate polarity_scores entry =
     ebind (select_text entry) (\<lambda>text.
       let cleaned = sentiment_clean_text text;
           sentiment = polarity_scores cleaned
       in
         ebind (py_setitem entry ''clean_text'' (JStr cleaned)) (\<lambda>entry.
         ebind (py_setitem entry ''sentiment_neg'' (JFloat (neg sentiment))) (\<lambda>entry.
         ebind (py_setitem entry ''sentiment_neu'' (JFloat (neu sentiment))) (\<lambda>entry.
         ebind (py_setitem entry ''sentiment_pos'' (JFloat (pos sentiment))) (\<lambda>entry.
         ebind (py_setitem entry ''sentiment_compound'' (JFloat (compound sentiment))) (\<lambda>entry.
           Inr entry))))))"

text \<open>The loop itself, over whatever \<^verbatim>\<open>json.load\<close> returned.\<close>

fun annotate_each :: "(string \<Rightarrow> scores) \<Rightarrow> json list \<Rightarrow> py_error + json list" where
  "annotate_each polarity_scores [] = Inr []"
| "annotate_each polarity_scores (entry # entries) =
     ebind (annotate polarity_scores entry) (\<lambda>e.
     ebind (annotate_each polarity_scores entries) (\<lambda>es. Inr (e # es)))"

definition annotate_all :: "(string \<Rightarrow> scores) \<Rightarrow> json \<Rightarrow> py_error + json list" where
  "annotate_all polarity_scores data =
     ebind (py_iter data) (\<lambda>entries. annotate_each polarity_scores entries)"

text \<open>The five fields the annotator sets, and the items of an annotated record.\<close>

definition annotation_keys :: "string list" where
  "annotation_keys = [''clean_text'', ''sentiment_neg'', ''sentiment_neu'', ''sentiment_pos'',
                      ''sentiment_compound'']"

definition annotated :: "(string \<Rightarrow> scores) \<Rightarrow> string \<Rightarrow> (string \<times> json) list \<Rightarrow> (string \<times> json) list" where
  "annotated polarity_scores cleaned kvs =
     AList.update ''sentiment_compound'' (JFloat (compound (polarity_scores cleaned)))
       (AList.update ''sentiment_pos'' (JFloat (pos (polarity_scores cleaned)))
         (AList.update ''sentiment_neu'' (JFloat (neu (polarity_scores cleaned)))
           (AList.update ''sentiment_neg'' (JFloat (neg (polarity_scores cleaned)))
             (AList.update ''clean_text'' (JStr cleaned) kvs))))"

text \<open>A scorer to run examples with.\<close>

definition sample_scorer :: "string \<Rightarrow> scores" where
  "sample_scorer s =
     (if s = [] then \<lparr>neg = 0, neu = 1, pos = 0, compound = 0\<rparr>
      else \<lparr>neg = 0, neu = 1 / 2, pos = 1 / 2, compound = 1 / 2\<rparr>)"

subsection \<open>Properties of the annotator\<close>

lemma select_text_dict: "\<exists>text. select_text (JObj kvs) = Inr text"
  by (simp add: select_text_def py_get_def ebind_def)

lemma annotate_dict:
  assumes "select_text (JObj kvs) = Inr text"
  shows "annotate ps (JObj kvs) = Inr (JObj (annotated ps (sentiment_clean_text text) kvs))"
  using assms by (simp add: annotate_def ebind_def Let_def annotated_def)

lemma annotated_other:
  "k \<notin> set annotation_keys \<Longrightarrow> map_of (annotated ps cleaned kvs) k = map_of kvs k"
  by (simp add: annotated_def annotation_keys_def update_conv')

lemma annotated_keys:
  "fst ` set (annotated ps cleaned kvs) = fst ` set kvs \<union> set annotation_keys"
  by (auto simp: annotated_def annotation_keys_def dom_update)

lemma annotated_values:
  "map_of (annotated ps cleaned kvs) ''clean_text'' = Some (JStr cleaned)"
  "map_of (annotated ps cleaned kvs) ''sentiment_neg'' = Some (JFloat (neg (ps cleaned)))"
  "map_of (annotated ps cleaned kvs) ''sentiment_neu'' = Some (JFloat (neu (ps cleaned)))"
  "map_of (annotated ps cleaned kvs) ''sentiment_pos'' = Some (JFloat (pos (ps cleaned)))"
  "map_of (annotated ps cleaned kvs) ''sentiment_compound'' = Some (JFloat (compound (ps cleaned)))"
  by (simp_all add: annotated_def update_conv')

lemma select_text_fallback:
  assumes "field entry ''body'' = JStr [] \<or> field entry ''body'' = JNull"
    and "is_dict entry" and "field entry ''comment'' = JStr c" and "c \<noteq> []"
  shows "select_text entry = Inr (JStr c)"
proof -
  obtain kvs where kvs: "entry = JObj kvs" using assms(2) by (cases entry) auto
  have b: "py_get entry ''body'' = Inr (field entry ''body'')"
    and c: "py_get entry ''comment'' = Inr (JStr c)"
    using assms(3) unfolding kvs by (simp_all add: field_def py_get_def)
  have "\<not> truthy (field entry ''body'')" using assms(1) by auto
  then show ?thesis using b c assms(4) by (simp add: select_text_def ebind_def py_or_def)
qed

text \<open>
  Claim C9. For every record (a dict) the annotator returns a record in which every key
  other than the five annotation fields has the value it had, the keys are those of the
  input and the five, and the five hold the normalized text and the four scores of the
  scorer on it. A field of the input that bears one of the five names is set anew.
\<close>

theorem annotate_frame:
  "\<exists>text kvs'.
     select_text (JObj kvs) = Inr text \<and>
     annotate polarity_scores (JObj kvs) = Inr (JObj kvs') \<and>
     (\<forall>k. k \<notin> set annotation_keys \<longrightarrow> map_of kvs' k = map_of kvs k) \<and>
     fst ` set kvs' = fst ` set kvs \<union> set annotation_keys \<and>
     map_of kvs' ''clean_text'' = Some (JStr (sentiment_clean_text text)) \<and>
     map_of kvs' ''sentiment_neg'' =
       Some (JFloat (neg (polarity_scores (sentiment_clean_text text)))) \<and>
     map_of kvs' ''sentiment_neu'' =
       Some (JFloat (neu (polarity_scores (sentiment_clean_text text)))) \<and>
     map_of kvs' ''sentiment_pos'' =
       Some (JFloat (pos (polarity_scores (sentiment_clean_text text)))) \<and>
     map_of kvs' ''sentiment_compound'' =
       Some (JFloat (compound (polarity_scores (sentiment_clean_text text))))"
proof -
  obtain chosen where t: "select_text (JObj kvs) = Inr chosen" using select_text_dict by blast
  show ?thesis
    by (intro exI [of _ chosen]
          exI [of _ "annotated polarity_scores (sentiment_clean_text chosen) kvs"])
       (simp add: t annotate_dict [OF t] annotated_other annotated_keys annotated_values)
qed

theorem annotate_frame_witness:
  "\<exists>out. annotate sample_scorer (JObj [(''body'', JStr ''Nice!''), (''score'', JInt 3)]) = Inr out \<and>
     field out ''score'' = JInt 3 \<and> field out ''body'' = JStr ''Nice!''"
proof -
  from annotate_frame [of "[(''body'', JStr ''Nice!''), (''score'', JInt 3)]" sample_scorer]
  obtain kvs' where a: "annotate sample_scorer (JObj [(''body'', JStr ''Nice!''), (''score'', JInt 3)])
        = Inr (JObj kvs')"
    and f: "\<forall>k. k \<notin> set annotation_keys \<longrightarrow>
        map_of kvs' k = map_of [(''body'', JStr ''Nice!''), (''score'', JInt 3)] k"
    by blast
  have "''score'' \<notin> set annotation_keys" "''body'' \<notin> set annotation_keys"
    by (simp_all add: annotation_keys_def)
  with f have "map_of kvs' ''score'' = Some (JInt 3)" "map_of kvs' ''body'' = Some (JStr ''Nice!'')"
    by simp_all
  then have "field (JObj kvs') ''score'' = JInt 3 \<and> field (JObj kvs') ''body'' = JStr ''Nice!''"
    by (simp add: field_def py_get_def)
  with a show ?thesis by blast
qed

text \<open>
  Claim C10. When \<^verbatim>\<open>body\<close> is the empty string or \<^verbatim>\<open>None\<close> (also when it is missing) and
  \<^verbatim>\<open>comment\<close> is a non-empty string, the normalized text and the scores are computed from
  \<^verbatim>\<open>comment\<close>.
\<close>

theorem annotate_falls_back_to_comment:
  assumes "field entry ''body'' = JStr [] \<or> field entry ''body'' = JNull"
    and "is_dict entry" and "field entry ''comment'' = JStr c" and "c \<noteq> []"
  shows "\<exists>out. annotate polarity_scores entry = Inr out \<and>
     field out ''clean_text'' = JStr (sentiment_clean c) \<and>
     field out ''sentiment_neg'' = JFloat (neg (polarity_scores (sentiment_clean c))) \<and>
     field out ''sentiment_neu'' = JFloat (neu (polarity_scores (sentiment_clean c))) \<and>
     field out ''sentiment_pos'' = JFloat (pos (polarity_scores (sentiment_clean c))) \<and>
     field out ''sentiment_compound'' = JFloat (compound (polarity_scores (sentiment_clean c)))"
proof -
  obtain kvs where kvs: "entry = JObj kvs" using assms(2) by (cases entry) auto
  have t: "select_text (JObj kvs) = Inr (JStr c)"
    using select_text_fallback [OF assms] kvs by simp
  have cl: "sentiment_clean_text (JStr c) = sentiment_clean c"
    by (simp add: sentiment_clean_text_def)
  show ?thesis
    unfolding kvs annotate_dict [OF t] cl
    by (intro exI [of _ "JObj (annotated polarity_scores (sentiment_clean c) kvs)"])
       (simp add: field_def py_get_def annotated_values)
qed

theorem annotate_falls_back_to_comment_witness:
  "\<exists>out. annotate sample_scorer (JObj [(''body'', JStr []), (''comment'', JStr ''Good bot'')])
        = Inr out \<and>
     field out ''clean_text'' = JStr ''good bot'' \<and>
     field out ''sentiment_pos'' = JFloat (1 / 2)"
proof -
  let ?entry = "JObj [(''body'', JStr []), (''comment'', JStr ''Good bot'')]"
  have b: "field ?entry ''body'' = JStr [] \<or> field ?entry ''body'' = JNull"
    by (simp add: field_def py_get_def)
  have d: "is_dict ?entry" by simp
  have c: "field ?entry ''comment'' = JStr ''Good bot''" by (simp add: field_def py_get_def)
  have n: "''Good bot'' \<noteq> []" by simp
  have v: "sentiment_clean ''Good bot'' = ''good bot''" by (simp add: clean_eval)
  from annotate_falls_back_to_comment [OF b d c n, of sample_scorer]
  show ?thesis unfolding v by (auto simp: sample_scorer_def)
qed

section \<open>Feed scanning (extract_reddit.py)\<close>
















subsection \<open>Properties of the paginator\<close>










end
